theory Spec2Isabelle
  imports Main "HOL-Library.Product_Lexorder" "HOL-Library.List_Lexorder" "HOL-Library.Multiset"
begin

section \<open>Strings and character classes\<close>

text \<open>
  A Python \<open>str\<close> is a sequence of Unicode code points, so a string is modelled as a list
  of code points (natural numbers); \<open>length\<close>, indexing and slicing then count what Python
  counts. \<open>ustr\<close> turns an ASCII literal into such a list. Python integers are unbounded and
  modelled as \<open>int\<close>. The interpreter's configurable limit on the number of digits of a
  conversion between integers and strings is modelled for the timestamp codec, in a
  subsection of its own; everywhere else the conversions are modelled with the limit
  switched off.
\<close>

type_synonym ustring = "nat list"

definition ustr :: "string \<Rightarrow> ustring" where
  "ustr s = map of_char s"

text \<open>Exceptions are values: a fallible function returns \<open>error + 'a\<close>, \<open>Inl\<close> the exception.\<close>

datatype error = ValueError | IndexError | OverflowError | ZeroDivisionError | FileNotFoundError

text \<open>
  \<open>str.isspace\<close> for one character; the same class is \<open>\s\<close> of \<open>re\<close> on \<open>str\<close> patterns and
  what \<open>strip()\<close>, \<open>lstrip()\<close>, \<open>rstrip()\<close> and \<open>split()\<close> without argument remove.
\<close>

definition is_space :: "nat \<Rightarrow> bool" where
  "is_space c \<longleftrightarrow>
     (9 \<le> c \<and> c \<le> 13) \<or> (28 \<le> c \<and> c \<le> 32) \<or> c = 133 \<or> c = 160 \<or> c = 5760 \<or>
     (8192 \<le> c \<and> c \<le> 8202) \<or> c = 8232 \<or> c = 8233 \<or> c = 8239 \<or> c = 8287 \<or> c = 12288"

definition py_lstrip :: "ustring \<Rightarrow> ustring" where
  "py_lstrip s = dropWhile is_space s"

definition py_rstrip :: "ustring \<Rightarrow> ustring" where
  "py_rstrip s = rev (dropWhile is_space (rev s))"

definition py_strip :: "ustring \<Rightarrow> ustring" where
  "py_strip s = py_rstrip (py_lstrip s)"

text \<open>\<open>s.rstrip("\n")\<close> and \<open>s.lstrip(bom)\<close>: strip one given character.\<close>

definition rstrip_char :: "nat \<Rightarrow> ustring \<Rightarrow> ustring" where
  "rstrip_char ch s = rev (dropWhile (\<lambda>c. c = ch) (rev s))"

definition lstrip_char :: "nat \<Rightarrow> ustring \<Rightarrow> ustring" where
  "lstrip_char ch s = dropWhile (\<lambda>c. c = ch) s"

text \<open>\<open>s.split()[0]\<close>: the first whitespace-delimited token; \<open>IndexError\<close> when there is none.\<close>

definition split_first :: "ustring \<Rightarrow> error + ustring" where
  "split_first s =
     (case dropWhile is_space s of
        [] \<Rightarrow> Inl IndexError
      | t \<Rightarrow> Inr (takeWhile (\<lambda>c. \<not> is_space c) t))"

text \<open>\<open>s.split(sep)\<close> for a one-character separator: always at least one field.\<close>

fun split_on :: "nat \<Rightarrow> ustring \<Rightarrow> ustring list" where
  "split_on sep [] = [[]]"
| "split_on sep (c # cs) =
     (if c = sep then [] # split_on sep cs
      else (case split_on sep cs of [] \<Rightarrow> [[c]] | l # ls \<Rightarrow> (c # l) # ls))"

text \<open>
  Decimal digits: \<open>\d\<close> of \<open>re\<close> on \<open>str\<close> patterns, and the digits \<open>int()\<close> and \<open>float()\<close>
  accept, are the code points of category Nd. They come in blocks of ten consecutive code
  points with values 0 to 9; \<open>nd_blocks\<close> lists the first code point of every block other
  than the ASCII one (Unicode 14.0, the table of CPython 3.11).
\<close>

definition nd_blocks :: "nat list" where
  "nd_blocks =
    [1632, 1776, 1984, 2406, 2534, 2662, 2790, 2918, 3046, 3174, 3302, 3430, 3558, 3664,
     3792, 3872, 4160, 4240, 6112, 6160, 6470, 6608, 6784, 6800, 6992, 7088, 7232, 7248, 42528,
     43216, 43264, 43472, 43504, 43600, 44016, 65296, 66720, 68912, 69734, 69872, 69942, 70096,
     70384, 70736, 70864, 71248, 71360, 71472, 71904, 72016, 72784, 73040, 73120, 92768, 92864,
     93008, 120782, 120792, 120802, 120812, 120822, 123200, 123632, 125264, 130032]"

definition digit_val :: "nat \<Rightarrow> nat option" where
  "digit_val c =
     (if 48 \<le> c \<and> c \<le> 57 then Some (c - 48)
      else if c < 1632 then None
      else (case filter (\<lambda>b. b \<le> c \<and> c < b + 10) nd_blocks of
              [] \<Rightarrow> None
            | b # _ \<Rightarrow> Some (c - b)))"

definition is_digit :: "nat \<Rightarrow> bool" where
  "is_digit c \<longleftrightarrow> digit_val c \<noteq> None"

text \<open>The value of a digit string read in base ten (characters that are no digits are skipped).\<close>

definition digits_value :: "ustring \<Rightarrow> int" where
  "digits_value s =
     foldl (\<lambda>a c. case digit_val c of None \<Rightarrow> a | Some d \<Rightarrow> 10 * a + int d) 0 s"

subsection \<open>\<open>int(str)\<close>\<close>

text \<open>
  \<open>int(s)\<close> in base ten: surrounding whitespace is dropped (the whitespace of \<open>str.isspace\<close>
  except the four ASCII separators U+001C to U+001F, which \<open>int\<close> rejects), then an optional
  sign, then digits in which single underscores may stand between two digits. Anything else
  is a \<open>ValueError\<close>.
\<close>

definition int_space :: "nat \<Rightarrow> bool" where
  "int_space c \<longleftrightarrow> is_space c \<and> \<not> (28 \<le> c \<and> c \<le> 31)"

fun digits_ok :: "bool \<Rightarrow> ustring \<Rightarrow> bool" where
  "digits_ok prev_digit [] = prev_digit"
| "digits_ok prev_digit (c # cs) =
     (if is_digit c then digits_ok True cs
      else if c = 95 \<and> prev_digit then digits_ok False cs
      else False)"

definition py_int :: "ustring \<Rightarrow> error + int" where
  "py_int s =
     (let t = rev (dropWhile int_space (rev (dropWhile int_space s)));
          (neg, body) = (case t of
                           [] \<Rightarrow> (False, [])
                         | c # r \<Rightarrow> if c = 45 then (True, r) else if c = 43 then (False, r)
                                    else (False, t))
      in if digits_ok False body
         then Inr (if neg then - digits_value body else digits_value body)
         else Inl ValueError)"

subsection \<open>\<open>float(str) * 1000\<close> and \<open>int(float)\<close>\<close>

text \<open>
  IEEE 754 binary64 with round-to-nearest, ties-to-even, as CPython's \<open>float\<close>. Only
  non-negative values occur in the program. A finite double is a pair \<open>(m, e)\<close> standing for
  \<open>m * 2^e\<close> with \<open>m < 2^53\<close> and \<open>-1074 \<le> e\<close>; \<open>None\<close> stands for \<open>inf\<close>.
\<close>

definition round_half_even :: "int \<Rightarrow> int \<Rightarrow> int" where
  "round_half_even p q =
     (let f = p div q; r = p mod q
      in if 2 * r < q then f else if q < 2 * r then f + 1 else if even f then f else f + 1)"

function bit_length :: "int \<Rightarrow> nat" where
  "bit_length n = (if n \<le> 0 then 0 else Suc (bit_length (n div 2)))"
  by pat_completeness auto
termination
  by (relation "measure nat") auto

declare bit_length.simps [simp del]

text \<open>\<open>floor_log2 p q\<close> is \<open>\<lfloor>log\<^sub>2 (p / q)\<rfloor>\<close> for positive \<open>p\<close> and \<open>q\<close>.\<close>

definition floor_log2 :: "int \<Rightarrow> int \<Rightarrow> int" where
  "floor_log2 p q =
     (let d = int (bit_length p) - int (bit_length q)
      in if (if 0 \<le> d then q * 2 ^ nat d \<le> p else q \<le> p * 2 ^ nat (- d)) then d else d - 1)"

text \<open>The double nearest to the rational \<open>p / q\<close> (for \<open>0 < q\<close>).\<close>

definition to_double :: "int \<Rightarrow> int \<Rightarrow> (int \<times> int) option" where
  "to_double p q =
     (if p = 0 then Some (0, 0)
      else let e = max (floor_log2 p q - 52) (- 1074);
               m = (if 0 \<le> e then round_half_even p (q * 2 ^ nat e)
                    else round_half_even (p * 2 ^ nat (- e)) q)
           in if 971 < e \<or> (e = 971 \<and> m = 2 ^ 53) then None else Some (m, e))"

text \<open>
  \<open>float(ts)\<close> for a string \<open>ts\<close> that matched \<open>\d+(\.\d+)?\<close>: the correctly rounded value of
  the decimal numeral.
\<close>

definition py_float :: "ustring \<Rightarrow> (int \<times> int) option" where
  "py_float ts =
     (let ip = takeWhile is_digit ts; fp = drop (Suc (length ip)) ts
      in to_double (digits_value (ip @ fp)) (10 ^ length fp))"

text \<open>\<open>x * 1000\<close> on doubles: the exact product, rounded.\<close>

definition float_mul_1000 :: "(int \<times> int) option \<Rightarrow> (int \<times> int) option" where
  "float_mul_1000 x =
     (case x of
        None \<Rightarrow> None
      | Some (m, e) \<Rightarrow> if 0 \<le> e then to_double (m * 1000 * 2 ^ nat e) 1
                       else to_double (m * 1000) (2 ^ nat (- e)))"

text \<open>\<open>int(x)\<close> on a double truncates; \<open>int(inf)\<close> raises \<open>OverflowError\<close>.\<close>

definition float_to_int :: "(int \<times> int) option \<Rightarrow> error + int" where
  "float_to_int x =
     (case x of
        None \<Rightarrow> Inl OverflowError
      | Some (m, e) \<Rightarrow> Inr (if 0 \<le> e then m * 2 ^ nat e else m div 2 ^ nat (- e)))"

subsection \<open>Formatting integers\<close>

fun dec_digits :: "nat \<Rightarrow> ustring" where
  "dec_digits n = (if n < 10 then [48 + n] else dec_digits (n div 10) @ [48 + n mod 10])"

declare dec_digits.simps [simp del]

text \<open>\<open>f"{n:0wd}"\<close>: decimal, zero-padded to width \<open>w\<close>, the sign counting in the width.\<close>

definition fmt_0d :: "nat \<Rightarrow> int \<Rightarrow> ustring" where
  "fmt_0d w n =
     (if n < 0
      then 45 # replicate (w - 1 - length (dec_digits (nat (- n)))) 48 @ dec_digits (nat (- n))
      else replicate (w - length (dec_digits (nat n))) 48 @ dec_digits (nat n))"

section \<open>Timestamp codec\<close>

text \<open>
  \<open>re.fullmatch(r"\d+(\.\d+)?", ts)\<close>. A full stop is no digit, so the greedy \<open>\d+\<close> stops at
  the first character that is no digit and giving digits back cannot help: either the string
  ends there, or a full stop and a non-empty run of digits end it.
\<close>

definition pure_seconds :: "ustring \<Rightarrow> bool" where
  "pure_seconds ts =
     (let ip = takeWhile is_digit ts; r = dropWhile is_digit ts
      in ip \<noteq> [] \<and> (r = [] \<or> (hd r = 46 \<and> tl r \<noteq> [] \<and> list_all is_digit (tl r))))"

definition parse_ts_to_ms :: "ustring \<Rightarrow> error + int" where
  "parse_ts_to_ms ts0 =
     (let ts = map (\<lambda>c. if c = 44 then 46 else c) (py_strip ts0)
      in if ts = [] then Inl ValueError
         else if pure_seconds ts then float_to_int (float_mul_1000 (py_float ts))
         else
           (case (case split_on 58 ts of
                    [hh, mm, rest] \<Rightarrow> Some (hh, mm, rest)
                  | [mm, rest] \<Rightarrow> Some (ustr ''0'', mm, rest)
                  | _ \<Rightarrow> None) of
              None \<Rightarrow> Inl ValueError
            | Some (hh, mm, rest) \<Rightarrow>
                (let rest_parts = split_on 46 rest;
                     ss = (if hd rest_parts \<noteq> [] then hd rest_parts else ustr ''0'');
                     ms_digits0 = (if 1 < length rest_parts then concat (tl rest_parts)
                                   else ustr ''0'');
                     ms_digits1 = filter is_digit ms_digits0;
                     ms_digits = (if ms_digits1 = [] then ustr ''0'' else ms_digits1);
                     mmm = digits_value (take 3 (ms_digits @ replicate (3 - length ms_digits) 48))
                 in case py_int hh of
                      Inl e \<Rightarrow> Inl e
                    | Inr h \<Rightarrow>
                       (case py_int mm of
                          Inl e \<Rightarrow> Inl e
                        | Inr m \<Rightarrow>
                           (case py_int ss of
                              Inl e \<Rightarrow> Inl e
                            | Inr s \<Rightarrow> Inr ((h * 3600 + m * 60 + s) * 1000 + mmm))))))"

definition ms_to_vtt :: "int \<Rightarrow> ustring" where
  "ms_to_vtt ms0 =
     (let ms = (if ms0 < 0 then 0 else ms0);
          hh = ms div 3600000;
          ms1 = ms mod 3600000;
          mm = ms1 div 60000;
          ms2 = ms1 mod 60000;
          ss = ms2 div 1000;
          mmm = ms2 mod 1000
      in fmt_0d 2 hh @ [58] @ fmt_0d 2 mm @ [58] @ fmt_0d 2 ss @ [46] @ fmt_0d 3 mmm)"

subsection \<open>The codec under the limit on the digits of an integer\<close>

text \<open>
  CPython refuses a conversion between \<open>int\<close> and \<open>str\<close> in base ten when the number has
  more than \<open>sys.get_int_max_str_digits()\<close> digits, 4300 unless the interpreter is configured
  otherwise: \<open>int(s)\<close> raises \<open>ValueError\<close> when \<open>s\<close> holds more than 4300 digits, leading
  zeros counted and underscores not, and formatting an integer raises \<open>ValueError\<close> when
  its decimal form has more than 4300 digits, the sign not counted. \<open>py_int\<close>, \<open>fmt_0d\<close>,
  \<open>parse_ts_to_ms\<close> and \<open>ms_to_vtt\<close> above are the conversions and the codec with the limit
  switched off (\<open>sys.set_int_max_str_digits(0)\<close>); the definitions below are the same
  functions under the default limit, where the encoder can fail.
\<close>

definition int_max_str_digits :: nat where
  "int_max_str_digits = 4300"

definition py_int_limited :: "ustring \<Rightarrow> error + int" where
  "py_int_limited s =
     (if int_max_str_digits < length (filter is_digit s) then Inl ValueError else py_int s)"

definition fmt_0d_limited :: "nat \<Rightarrow> int \<Rightarrow> error + ustring" where
  "fmt_0d_limited w n =
     (if int_max_str_digits < length (dec_digits (nat \<bar>n\<bar>)) then Inl ValueError
      else Inr (fmt_0d w n))"

definition parse_ts_to_ms_limited :: "ustring \<Rightarrow> error + int" where
  "parse_ts_to_ms_limited ts0 =
     (let ts = map (\<lambda>c. if c = 44 then 46 else c) (py_strip ts0)
      in if ts = [] then Inl ValueError
         else if pure_seconds ts then float_to_int (float_mul_1000 (py_float ts))
         else
           (case (case split_on 58 ts of
                    [hh, mm, rest] \<Rightarrow> Some (hh, mm, rest)
                  | [mm, rest] \<Rightarrow> Some (ustr ''0'', mm, rest)
                  | _ \<Rightarrow> None) of
              None \<Rightarrow> Inl ValueError
            | Some (hh, mm, rest) \<Rightarrow>
                (let rest_parts = split_on 46 rest;
                     ss = (if hd rest_parts \<noteq> [] then hd rest_parts else ustr ''0'');
                     ms_digits0 = (if 1 < length rest_parts then concat (tl rest_parts)
                                   else ustr ''0'');
                     ms_digits1 = filter is_digit ms_digits0;
                     ms_digits = (if ms_digits1 = [] then ustr ''0'' else ms_digits1);
                     mmm = digits_value (take 3 (ms_digits @ replicate (3 - length ms_digits) 48))
                 in case py_int_limited hh of
                      Inl e \<Rightarrow> Inl e
                    | Inr h \<Rightarrow>
                       (case py_int_limited mm of
                          Inl e \<Rightarrow> Inl e
                        | Inr m \<Rightarrow>
                           (case py_int_limited ss of
                              Inl e \<Rightarrow> Inl e
                            | Inr s \<Rightarrow> Inr ((h * 3600 + m * 60 + s) * 1000 + mmm))))))"

definition ms_to_vtt_limited :: "int \<Rightarrow> error + ustring" where
  "ms_to_vtt_limited ms0 =
     (let ms = (if ms0 < 0 then 0 else ms0);
          hh = ms div 3600000;
          ms1 = ms mod 3600000;
          mm = ms1 div 60000;
          ms2 = ms1 mod 60000;
          ss = ms2 div 1000;
          mmm = ms2 mod 1000
      in case fmt_0d_limited 2 hh of
           Inl e \<Rightarrow> Inl e
         | Inr h \<Rightarrow>
            (case fmt_0d_limited 2 mm of
               Inl e \<Rightarrow> Inl e
             | Inr m \<Rightarrow>
                (case fmt_0d_limited 2 ss of
                   Inl e \<Rightarrow> Inl e
                 | Inr s \<Rightarrow>
                    (case fmt_0d_limited 3 mmm of
                       Inl e \<Rightarrow> Inl e
                     | Inr f \<Rightarrow> Inr (h @ [58] @ m @ [58] @ s @ [46] @ f)))))"

section \<open>The timestamp line grammar\<close>

text \<open>
  \<open>TS_LINE_RE = ^\s*(.+?)\s*-->\s*(.+?)(\s+.*)?$\<close>, matched by a backtracking engine:
  every quantifier tries its repetition counts in its own order (a greedy one from the
  longest down, a lazy one from the shortest up), and the first combination under which the
  rest of the pattern matches is the match. \<open>first_some\<close> is that search.
\<close>

fun first_some :: "('a \<Rightarrow> 'b option) \<Rightarrow> 'a list \<Rightarrow> 'b option" where
  "first_some f [] = None"
| "first_some f (x # xs) = (case f x of None \<Rightarrow> first_some f xs | Some r \<Rightarrow> Some r)"

definition greedy :: "nat \<Rightarrow> nat \<Rightarrow> (nat \<Rightarrow> 'a option) \<Rightarrow> 'a option" where
  "greedy lo hi f = first_some f (rev [lo..<Suc hi])"

definition lazy :: "nat \<Rightarrow> nat \<Rightarrow> (nat \<Rightarrow> 'a option) \<Rightarrow> 'a option" where
  "lazy lo hi f = first_some f [lo..<Suc hi]"

text \<open>
  How many characters \<open>\s*\<close> and \<open>.*\<close> can take at most at the start of a string (the full
  stop matches every character but the newline), and where \<open>$\<close> matches: at the end of the
  string, or before a newline that ends it.
\<close>

definition ws_run :: "ustring \<Rightarrow> nat" where
  "ws_run s = length (takeWhile is_space s)"

definition dot_run :: "ustring \<Rightarrow> nat" where
  "dot_run s = length (takeWhile (\<lambda>c. c \<noteq> 10) s)"

definition at_eol :: "ustring \<Rightarrow> bool" where
  "at_eol s \<longleftrightarrow> s = [] \<or> s = [10]"

text \<open>\<open>(\s+.*)?$\<close>: the optional group is tried first; the result is group 3, if it took part.\<close>

definition re_tail :: "ustring \<Rightarrow> ustring option option" where
  "re_tail r =
     (case greedy 1 (ws_run r) (\<lambda>k. let r' = drop k r in
             greedy 0 (dot_run r') (\<lambda>n.
               if at_eol (drop n r') then Some (take (k + n) r) else None)) of
        Some g \<Rightarrow> Some (Some g)
      | None \<Rightarrow> if at_eol r then Some None else None)"

text \<open>\<open>\s*(.+?)(\s+.*)?$\<close>: groups 2 and 3.\<close>

definition re_end_field :: "ustring \<Rightarrow> (ustring \<times> ustring option) option" where
  "re_end_field r =
     greedy 0 (ws_run r) (\<lambda>k. let r' = drop k r in
       lazy 1 (dot_run r') (\<lambda>n.
         case re_tail (drop n r') of None \<Rightarrow> None | Some g3 \<Rightarrow> Some (take n r', g3)))"

text \<open>\<open>TS_LINE_RE.match(line)\<close>: \<open>None\<close>, or the three groups.\<close>

definition TS_LINE_RE :: "ustring \<Rightarrow> (ustring \<times> ustring \<times> ustring option) option" where
  "TS_LINE_RE line =
     greedy 0 (ws_run line) (\<lambda>k0. let r0 = drop k0 line in
       lazy 1 (dot_run r0) (\<lambda>n1. let r1 = drop n1 r0 in
         greedy 0 (ws_run r1) (\<lambda>k1. let r2 = drop k1 r1 in
           if take 3 r2 = ustr ''-->''
           then (case re_end_field (drop 3 r2) of
                   None \<Rightarrow> None
                 | Some (g2, g3) \<Rightarrow> Some (take n1 r0, g2, g3))
           else None)))"

text \<open>
  The two sides of a timestamp line are decoded inside one \<open>try\<close> block wherever the
  program guards the decoding: the first exception leaves the block.
\<close>

definition parse_both :: "ustring \<Rightarrow> ustring \<Rightarrow> error + (int \<times> int)" where
  "parse_both start_raw end_raw =
     (case parse_ts_to_ms start_raw of
        Inl e \<Rightarrow> Inl e
      | Inr s \<Rightarrow> (case parse_ts_to_ms end_raw of Inl e \<Rightarrow> Inl e | Inr e \<Rightarrow> Inr (s, e)))"

section \<open>Document splitter\<close>

definition blank :: "ustring \<Rightarrow> bool" where
  "blank l \<longleftrightarrow> py_strip l = []"

text \<open>
  \<open>str.upper\<close>, as far as the test \<open>.upper().startswith("WEBVTT")\<close> can see it: the ASCII
  letters, and the two other code points whose upper-case form begins with a letter of the
  token (U+1E97 and U+1E98, which become \<open>T\<close> and \<open>W\<close> followed by a combining mark). The
  upper-case form of every other code point begins with a character outside the token, as
  the code point itself does, so leaving those unchanged does not change the test.
\<close>

definition upper_char :: "nat \<Rightarrow> ustring" where
  "upper_char c =
     (if 97 \<le> c \<and> c \<le> 122 then [c - 32]
      else if c = 7831 then [84, 776]
      else if c = 7832 then [87, 778]
      else [c])"

definition py_upper :: "ustring \<Rightarrow> ustring" where
  "py_upper s = concat (map upper_char s)"

definition is_signature :: "ustring \<Rightarrow> bool" where
  "is_signature l \<longleftrightarrow> take 6 (py_upper (py_strip (lstrip_char 65279 l))) = ustr ''WEBVTT''"

definition split_header_and_body :: "ustring list \<Rightarrow> ustring list \<times> ustring list" where
  "split_header_and_body lines =
     (let l1 = dropWhile blank lines;
          (header0, l2) = (case l1 of
                             [] \<Rightarrow> ([], l1)
                           | x # r \<Rightarrow> if is_signature x then ([lstrip_char 65279 x], r)
                                      else ([], l1));
          header1 = header0 @ takeWhile (\<lambda>l. \<not> blank l) l2;
          l3 = dropWhile (\<lambda>l. \<not> blank l) l2;
          header2 = header1 @ takeWhile blank l3
      in (header2, dropWhile blank l3))"

section \<open>Timeline fixer\<close>

datatype action = SKIP_UNPARSEABLE | SWAP_START_END | NORMALIZE

text \<open>
  The detail of a log entry: the two raw fields, or, for a skipped line, the exception (the
  wording of its message is not modelled).
\<close>

datatype detail = Raised error | Fields ustring ustring

type_synonym log_entry = "nat \<times> action \<times> detail"

text \<open>One iteration of the loop of \<open>fix_vtt_timestamps\<close>: the line written and what is logged.\<close>

definition fix_line :: "nat \<Rightarrow> ustring \<Rightarrow> error + (ustring \<times> log_entry list)" where
  "fix_line idx line =
     (case TS_LINE_RE line of
        None \<Rightarrow> Inr (line, [])
      | Some (g1, g2, g3) \<Rightarrow>
          (let start_raw = py_strip g1;
               end_and_more = py_strip g2;
               tail = (case g3 of None \<Rightarrow> [] | Some t \<Rightarrow> t)
           in case split_first end_and_more of
                Inl e \<Rightarrow> Inl e
              | Inr end_raw \<Rightarrow>
                  (case parse_both start_raw end_raw of
                     Inl e \<Rightarrow> Inr (line, [(idx, SKIP_UNPARSEABLE, Raised e)])
                   | Inr (s0, e0) \<Rightarrow>
                       (let swapped = (e0 < s0);
                            s_ms = (if swapped then e0 else s0);
                            e_ms = (if swapped then s0 else e0);
                            new_line = py_rstrip (ms_to_vtt s_ms @ ustr '' --> '' @
                                                  ms_to_vtt e_ms @ tail) @ [10]
                        in Inr (new_line,
                                if swapped then [(idx, SWAP_START_END, Fields start_raw end_raw)]
                                else if py_strip line \<noteq> py_strip new_line
                                     then [(idx, NORMALIZE, Fields start_raw end_raw)]
                                     else [])))))"

fun fix_loop :: "nat \<Rightarrow> ustring list \<Rightarrow> error + (ustring list \<times> log_entry list)" where
  "fix_loop idx [] = Inr ([], [])"
| "fix_loop idx (line # rest) =
     (case fix_line idx line of
        Inl e \<Rightarrow> Inl e
      | Inr (l, entries) \<Rightarrow>
          (case fix_loop (Suc idx) rest of
             Inl e \<Rightarrow> Inl e
           | Inr (fixed_lines, fix_log) \<Rightarrow> Inr (l # fixed_lines, entries @ fix_log)))"

definition fix_vtt_timestamps :: "ustring list \<Rightarrow> error + (ustring list \<times> log_entry list)" where
  "fix_vtt_timestamps lines = fix_loop 1 lines"

section \<open>Cue parser\<close>

record cue =
  start_ms :: int
  end_ms :: int
  text_lines :: "ustring list"
  ts_line :: ustring

text \<open>
  The \<open>while\<close> loop of \<open>iter_cues\<close> walks an index through \<open>body_lines\<close>; the model recurses
  on the lines from that index on.
\<close>

function iter_cues :: "ustring list \<Rightarrow> error + cue list" where
  "iter_cues [] = Inr []"
| "iter_cues (line # rest) =
     (case TS_LINE_RE line of
        None \<Rightarrow> iter_cues rest
      | Some (g1, g2, g3) \<Rightarrow>
          (case split_first (py_strip g2) of
             Inl e \<Rightarrow> Inl e
           | Inr end_raw \<Rightarrow>
               (case parse_both (py_strip g1) end_raw of
                  Inl e \<Rightarrow> iter_cues rest
                | Inr (s_ms, e_ms) \<Rightarrow>
                    (let txt = map (rstrip_char 10) (takeWhile (\<lambda>l. \<not> blank l) rest);
                         rest1 = dropWhile (\<lambda>l. \<not> blank l) rest;
                         rest2 = dropWhile blank rest1
                     in case iter_cues rest2 of
                          Inl e \<Rightarrow> Inl e
                        | Inr cues \<Rightarrow>
                            Inr (\<lparr>start_ms = s_ms, end_ms = e_ms, text_lines = txt,
                                  ts_line = rstrip_char 10 line\<rparr> # cues)))))"
  by pat_completeness auto
termination
  by (relation "measure length")
     (auto intro: le_imp_less_Suc order_trans [OF length_dropWhile_le length_dropWhile_le])

section \<open>Chunker\<close>

text \<open>\<open>str(n)\<close> for an integer.\<close>

definition py_str_int :: "int \<Rightarrow> ustring" where
  "py_str_int n = (if n < 0 then 45 # dec_digits (nat (- n)) else dec_digits (nat n))"

text \<open>
  \<open>chunk_index\<close>, the closure of \<open>cmd_split\<close>, with the two variables it captures as
  arguments. Python's \<open>//\<close> is the floor division \<open>div\<close> of \<open>int\<close>; it raises on a zero divisor.
\<close>

definition chunk_index :: "int \<Rightarrow> int \<Rightarrow> int \<Rightarrow> error + nat" where
  "chunk_index base_ms chunk_ms s =
     (if chunk_ms = 0 then Inl ZeroDivisionError
      else Inr (nat (max 0 ((s - base_ms) div chunk_ms))))"

text \<open>The grouping loop: the bucket list grows by empty buckets up to the index needed.\<close>

fun group_cues :: "int \<Rightarrow> int \<Rightarrow> cue list list \<Rightarrow> cue list \<Rightarrow> error + cue list list" where
  "group_cues base_ms chunk_ms buckets [] = Inr buckets"
| "group_cues base_ms chunk_ms buckets (c # cs) =
     (case chunk_index base_ms chunk_ms (start_ms c) of
        Inl e \<Rightarrow> Inl e
      | Inr idx \<Rightarrow>
          (let grown = buckets @ replicate (Suc idx - length buckets) []
           in group_cues base_ms chunk_ms (grown[idx := grown ! idx @ [c]]) cs))"

text \<open>The lines written for one cue of a bucket.\<close>

definition cue_out_lines :: "bool \<Rightarrow> int \<Rightarrow> cue \<Rightarrow> ustring list" where
  "cue_out_lines rebase chunk_start c =
     (if rebase
      then [ms_to_vtt (start_ms c - chunk_start) @ ustr '' --> '' @
            ms_to_vtt (end_ms c - chunk_start) @ [10]]
      else [py_rstrip (ts_line c) @ [10]])
     @ map (\<lambda>t. t @ [10]) (text_lines c) @ [[10]]"

text \<open>
  The writing loop over \<open>enumerate(buckets, start=1)\<close>: one file, named after the stem and
  \<open>idx\<close>, for every bucket that is not empty. The file system is modelled by the list of
  the files written, each a name and its lines, in the order of writing.
\<close>

fun write_buckets ::
  "ustring \<Rightarrow> ustring list \<Rightarrow> bool \<Rightarrow> int \<Rightarrow> int \<Rightarrow> nat \<Rightarrow> cue list list \<Rightarrow>
   (ustring \<times> ustring list) list" where
  "write_buckets stem header rebase base_ms chunk_ms idx [] = []"
| "write_buckets stem header rebase base_ms chunk_ms idx (bucket # rest) =
     (if bucket = [] then write_buckets stem header rebase base_ms chunk_ms (Suc idx) rest
      else
        (let chunk_start = base_ms + (int idx - 1) * chunk_ms;
             out_lines = (if header \<noteq> [] then header else [ustr ''WEBVTT'' @ [10], [10]])
                         @ concat (map (cue_out_lines rebase chunk_start) bucket)
         in (stem @ ustr ''_part'' @ py_str_int (int idx) @ ustr ''.vtt'', out_lines)
            # write_buckets stem header rebase base_ms chunk_ms (Suc idx) rest))"

text \<open>
  \<open>cmd_split\<close> on the lines read from the input file, whose stem is \<open>stem\<close>; the result is
  the files written.
\<close>

definition cmd_split ::
  "ustring \<Rightarrow> ustring list \<Rightarrow> int \<Rightarrow> bool \<Rightarrow> bool \<Rightarrow> error + (ustring \<times> ustring list) list" where
  "cmd_split stem lines minutes rebase start_at_zero =
     (let (header, body) = split_header_and_body lines
      in case iter_cues body of
           Inl e \<Rightarrow> Inl e
         | Inr cues \<Rightarrow>
             if cues = [] then Inl ValueError
             else
               (let chunk_ms = minutes * 60000
                in case (if start_at_zero then Inr 0
                         else if chunk_ms = 0 then Inl ZeroDivisionError
                         else Inr ((Min (set (map start_ms cues)) div chunk_ms) * chunk_ms)) of
                     Inl e \<Rightarrow> Inl e
                   | Inr base_ms \<Rightarrow>
                       (case group_cues base_ms chunk_ms [] cues of
                          Inl e \<Rightarrow> Inl e
                        | Inr buckets \<Rightarrow>
                            Inr (write_buckets stem header rebase base_ms chunk_ms 1 buckets))))"

section \<open>Chronological merger\<close>

text \<open>
  \<open>PARTNUM_RE = (?:^|[^a-zA-Z])_?part\s*0*(\d+)\<close> with \<open>re.IGNORECASE\<close>. Ignoring case,
  the letters of \<open>part\<close> match their two ASCII forms only, and \<open>[^a-zA-Z]\<close> rejects, besides
  the ASCII letters, the four code points whose case forms are ASCII letters (U+0130, U+0131,
  U+017F, U+212A).
\<close>

definition lower_ascii :: "nat \<Rightarrow> nat" where
  "lower_ascii c = (if 65 \<le> c \<and> c \<le> 90 then c + 32 else c)"

definition not_letter :: "nat \<Rightarrow> bool" where
  "not_letter c \<longleftrightarrow>
     \<not> ((65 \<le> c \<and> c \<le> 90) \<or> (97 \<le> c \<and> c \<le> 122) \<or> c = 304 \<or> c = 305 \<or> c = 383 \<or> c = 8490)"

text \<open>\<open>_?part\s*0*(\d+)\<close> at the start of a string: group 1.\<close>

definition re_part_number :: "ustring \<Rightarrow> ustring option" where
  "re_part_number s =
     greedy 0 (if take 1 s = [95] then 1 else 0) (\<lambda>u. let r = drop u s in
       if map lower_ascii (take 4 r) = ustr ''part''
       then (let r1 = drop 4 r in
             greedy 0 (ws_run r1) (\<lambda>k. let r2 = drop k r1 in
               greedy 0 (length (takeWhile (\<lambda>c. c = 48) r2)) (\<lambda>z. let r3 = drop z r2 in
                 greedy 1 (length (takeWhile is_digit r3)) (\<lambda>d. Some (take d r3)))))
       else None)"

text \<open>\<open>PARTNUM_RE.search(s)\<close>: the match at the leftmost position that has one.\<close>

definition PARTNUM_RE :: "ustring \<Rightarrow> ustring option" where
  "PARTNUM_RE s =
     lazy 0 (length s) (\<lambda>p.
       case (if p = 0 then re_part_number s else None) of
         Some g \<Rightarrow> Some g
       | None \<Rightarrow> if p < length s \<and> not_letter (s ! p) then re_part_number (drop (Suc p) s)
                 else None)"

text \<open>A file of the directory: the last component of its path, and the lines read from it.\<close>

record vtt_file =
  file_name :: ustring
  file_lines :: "ustring list"

text \<open>\<open>Path.stem\<close>: the name without its last suffix.\<close>

definition rfind :: "nat \<Rightarrow> ustring \<Rightarrow> int" where
  "rfind ch s = (case filter (\<lambda>i. s ! i = ch) (rev [0..<length s]) of [] \<Rightarrow> - 1 | i # _ \<Rightarrow> int i)"

definition path_stem :: "ustring \<Rightarrow> ustring" where
  "path_stem n = (let i = rfind 46 n in if 0 < i \<and> i < int (length n) - 1 then take (nat i) n else n)"

definition part_number_from_name :: "ustring \<Rightarrow> int" where
  "part_number_from_name n =
     (case PARTNUM_RE (path_stem n) of
        None \<Rightarrow> 10 ^ 9
      | Some g \<Rightarrow> (case py_int g of Inl e \<Rightarrow> 10 ^ 9 | Inr v \<Rightarrow> v))"

fun first_start :: "ustring list \<Rightarrow> int" where
  "first_start [] = 10 ^ 12"
| "first_start (line # rest) =
     (case TS_LINE_RE line of
        None \<Rightarrow> first_start rest
      | Some (g1, g2, g3) \<Rightarrow>
          (case parse_ts_to_ms (py_strip g1) of
             Inl e \<Rightarrow> first_start rest
           | Inr t \<Rightarrow> t))"

definition first_cue_start_ms :: "ustring list \<Rightarrow> int" where
  "first_cue_start_ms ls = first_start (snd (split_header_and_body ls))"

definition read_vtt_keep_header :: "ustring list \<Rightarrow> ustring list \<times> ustring list" where
  "read_vtt_keep_header ls =
     (let (header, body) = split_header_and_body ls
      in (if header = [] then [ustr ''WEBVTT'' @ [10], [10]] else header, body))"

text \<open>
  The order of merging. \<open>str.lower\<close>, applied to the file names for the last component of
  the key, is the interpreter's Unicode table and a parameter of the model. \<open>list.sort\<close> is
  stable, as \<open>sort_key\<close> is; tuples compare lexicographically, strings by code points.
\<close>


definition files_sorted :: "(ustring \<Rightarrow> ustring) \<Rightarrow> vtt_file list \<Rightarrow> vtt_file list" where
  "files_sorted lower files =
     map (\<lambda>(t0, pn, n, f). f)
       (sort_key (\<lambda>(t0, pn, n, f). (t0, pn, n))
          (map (\<lambda>f. (first_cue_start_ms (file_lines f), part_number_from_name (file_name f),
                      lower (file_name f), f)) files))"

text \<open>The body of a file, without its leading and trailing blank lines.\<close>

definition trim_blank :: "ustring list \<Rightarrow> ustring list" where
  "trim_blank body = rev (dropWhile blank (rev (dropWhile blank body)))"

fun merge_loop :: "bool \<Rightarrow> ustring list \<Rightarrow> vtt_file list \<Rightarrow> ustring list" where
  "merge_loop header_written out_lines [] = out_lines"
| "merge_loop header_written out_lines (f # fs) =
     (let (header, body0) = read_vtt_keep_header (file_lines f);
          out1 = (if \<not> header_written
                  then (let o1 = out_lines @ header
                        in if o1 \<noteq> [] \<and> \<not> blank (last o1) then o1 @ [[10]] else o1)
                  else out_lines);
          body = trim_blank body0;
          out2 = (if body \<noteq> [] then out1 @ body @ [[10]] else out1)
      in merge_loop True out2 fs)"

text \<open>
  \<open>cmd_merge\<close> on the files the pattern selected, in the order of enumeration: the files in
  the order of merging and the text written to the output file.
\<close>

definition cmd_merge ::
  "(ustring \<Rightarrow> ustring) \<Rightarrow> vtt_file list \<Rightarrow> error + (vtt_file list \<times> ustring)" where
  "cmd_merge lower files =
     (if files = [] then Inl FileNotFoundError
      else (let fs = files_sorted lower files
            in Inr (fs, py_rstrip (concat (merge_loop False [] fs)) @ [10])))"


section \<open>Cue compressor\<close>

definition PUNCT_END :: "nat set" where
  "PUNCT_END = {46, 63, 33, 12290, 65311, 65281, 8230}"

text \<open>
  \<open>TAG_RE.sub("", s)\<close> with \<open>TAG_RE = <[^>]+>\<close>: from the left, a \<open><\<close> followed by at least
  one character other than \<open>>\<close> and then a \<open>>\<close> is removed with everything in between;
  a \<open><\<close> that starts no such match stays.
\<close>

function remove_tags :: "ustring \<Rightarrow> ustring" where
  "remove_tags [] = []"
| "remove_tags (c # cs) =
     (if c = 60 \<and> takeWhile (\<lambda>x. x \<noteq> 62) cs \<noteq> [] \<and> dropWhile (\<lambda>x. x \<noteq> 62) cs \<noteq> []
      then remove_tags (tl (dropWhile (\<lambda>x. x \<noteq> 62) cs))
      else c # remove_tags cs)"
  by pat_completeness auto
termination
proof (relation "measure length")
  fix c :: nat and cs :: ustring
  have "length (tl (dropWhile (\<lambda>x. x \<noteq> 62) cs)) \<le> length cs"
    using length_dropWhile_le [of "\<lambda>x. x \<noteq> 62" cs] by simp
  then show "(tl (dropWhile (\<lambda>x. x \<noteq> 62) cs), c # cs) \<in> measure length"
    by simp
qed simp_all

text \<open>\<open>MULTI_SPACE_RE.sub(" ", s)\<close> with \<open>MULTI_SPACE_RE = \s+\<close>.\<close>

function collapse_ws :: "ustring \<Rightarrow> ustring" where
  "collapse_ws [] = []"
| "collapse_ws (c # cs) =
     (if is_space c then 32 # collapse_ws (dropWhile is_space cs) else c # collapse_ws cs)"
  by pat_completeness auto
termination
  by (relation "measure length") (auto intro: le_imp_less_Suc length_dropWhile_le)

definition clean_text :: "ustring \<Rightarrow> ustring" where
  "clean_text s = collapse_ws (remove_tags (py_strip s))"

definition ends_sentence :: "ustring \<Rightarrow> bool" where
  "ends_sentence s0 = (let s = clean_text s0 in if s = [] then True else last s \<in> PUNCT_END)"

text \<open>\<open>sep.join(xs)\<close>.\<close>

fun join :: "ustring \<Rightarrow> ustring list \<Rightarrow> ustring" where
  "join sep [] = []"
| "join sep [x] = x"
| "join sep (x # y # r) = x @ sep @ join sep (y # r)"

text \<open>\<open>content.replace("\r\n", "\n").replace("\r", "\n")\<close>.\<close>

fun normalize_newlines :: "ustring \<Rightarrow> ustring" where
  "normalize_newlines [] = []"
| "normalize_newlines [c] = [if c = 13 then 10 else c]"
| "normalize_newlines (c # d # r) =
     (if c = 13 \<and> d = 10 then 10 # normalize_newlines r
      else if c = 13 then 10 # normalize_newlines (d # r)
      else c # normalize_newlines (d # r))"

text \<open>
  The cues of the compressor are the tuples
  \<open>(start_ms, end_ms, start_ts, end_ts, text)\<close> of the source.
\<close>

type_synonym ccue = "int \<times> int \<times> ustring \<times> ustring \<times> ustring"

text \<open>Skipping the header: the lines at which the parsing loop of \<open>cmd_compress\<close> starts.\<close>

definition compress_skip_header :: "ustring list \<Rightarrow> ustring list" where
  "compress_skip_header lines0 =
     (let l1 = dropWhile blank lines0;
          l2 = (case l1 of [] \<Rightarrow> l1 | x # r \<Rightarrow> if is_signature x then r else l1);
          l3 = dropWhile (\<lambda>l. \<not> blank l) l2
      in dropWhile blank l3)"

text \<open>
  The parsing loop of \<open>cmd_compress\<close>. The two timestamps are decoded outside any \<open>try\<close>
  block: an exception of the decoder leaves the function.
\<close>

function compress_parse :: "ustring list \<Rightarrow> error + ccue list" where
  "compress_parse [] = Inr []"
| "compress_parse (l # rest) =
     (if py_strip l = [] then compress_parse rest
      else
        (case TS_LINE_RE l of
           None \<Rightarrow> compress_parse rest
         | Some (g1, g2, g3) \<Rightarrow>
             (case split_first (py_strip g2) of
                Inl e \<Rightarrow> Inl e
              | Inr end_raw \<Rightarrow>
                  (case parse_ts_to_ms (py_strip g1) of
                     Inl e \<Rightarrow> Inl e
                   | Inr s_ms \<Rightarrow>
                       (case parse_ts_to_ms end_raw of
                          Inl e \<Rightarrow> Inl e
                        | Inr e_ms \<Rightarrow>
                            (let tls = map py_strip (takeWhile (\<lambda>l. \<not> blank l) rest);
                                 rest1 = dropWhile (\<lambda>l. \<not> blank l) rest;
                                 txt = clean_text (join [32] tls);
                                 rest2 = dropWhile blank rest1
                             in case compress_parse rest2 of
                                  Inl e \<Rightarrow> Inl e
                                | Inr cues \<Rightarrow>
                                    Inr ((s_ms, e_ms, ms_to_vtt s_ms, ms_to_vtt e_ms, txt)
                                         # cues)))))))"
  by pat_completeness auto
termination
  by (relation "measure length")
     (auto intro: le_imp_less_Suc order_trans [OF length_dropWhile_le length_dropWhile_le])

text \<open>
  The merging loop of \<open>cmd_compress\<close>: the accumulator (the five \<open>cur_\<close> variables and
  \<open>buffer\<close>), the list \<open>merged\<close>, and the cues still to come.
\<close>

fun merge_adjacent ::
  "int \<Rightarrow> int \<Rightarrow> ccue \<Rightarrow> (ustring \<times> ustring \<times> ustring) list \<Rightarrow> ccue list \<Rightarrow>
   (ustring \<times> ustring \<times> ustring) list" where
  "merge_adjacent gap_ms max_chars (cur_start_ms, cur_end_ms, cur_start_ts, cur_end_ts, buffer)
     merged [] = merged @ [(cur_start_ts, cur_end_ts, buffer)]"
| "merge_adjacent gap_ms max_chars (cur_start_ms, cur_end_ms, cur_start_ts, cur_end_ts, buffer)
     merged ((s_ms, e_ms, s_ts, e_ts, txt) # rest) =
     (let gap = s_ms - cur_end_ms
      in if gap \<le> gap_ms \<and> \<not> ends_sentence buffer \<and>
            int (length buffer) + 1 + int (length txt) \<le> max_chars
         then merge_adjacent gap_ms max_chars
                (cur_start_ms, max cur_end_ms e_ms, cur_start_ts,
                 ms_to_vtt (max cur_end_ms e_ms), clean_text (buffer @ [32] @ txt))
                merged rest
         else merge_adjacent gap_ms max_chars (s_ms, e_ms, s_ts, e_ts, txt)
                (merged @ [(cur_start_ts, cur_end_ts, buffer)]) rest)"

text \<open>
  \<open>cmd_compress\<close> on the decoded text of the input file: the merged cues and the text
  written to the output file.
\<close>

definition cmd_compress ::
  "ustring \<Rightarrow> int \<Rightarrow> int \<Rightarrow> error + ((ustring \<times> ustring \<times> ustring) list \<times> ustring)" where
  "cmd_compress content gap_ms max_chars =
     (let lines0 = split_on 10 (normalize_newlines content)
      in case compress_parse (compress_skip_header lines0) of
           Inl e \<Rightarrow> Inl e
         | Inr cues0 \<Rightarrow>
             if cues0 = [] then Inl ValueError
             else
               (let cues = sort_key (\<lambda>(s, e, x). (s, e)) cues0;
                    merged = merge_adjacent gap_ms max_chars (hd cues) [] (tl cues);
                    out_lines = [ustr ''WEBVTT'', []] @
                                concat (map (\<lambda>(s_ts, e_ts, txt).
                                               [s_ts @ ustr '' --> '' @ e_ts, txt, []]) merged)
                in Inr (merged, py_strip (join [10] out_lines) @ [10])))"

section \<open>Auxiliary notions for the proofs\<close>





text \<open>Strings of ASCII digits, as the encoder writes them.\<close>

definition ascii_digits :: "ustring \<Rightarrow> bool" where
  "ascii_digits s \<longleftrightarrow> list_all (\<lambda>c. 48 \<le> c \<and> c \<le> 57) s"

text \<open>
  The start and end a timestamp line decodes to, read as every component of the program reads
  them: the line matches the grammar, the end field has a first token, and both decode.
\<close>

definition line_times :: "ustring \<Rightarrow> (int \<times> int) option" where
  "line_times l =
     (case TS_LINE_RE l of
        None \<Rightarrow> None
      | Some (g1, g2, g3) \<Rightarrow>
          (case split_first (py_strip g2) of
             Inl e \<Rightarrow> None
           | Inr end_raw \<Rightarrow>
               (case parse_both (py_strip g1) end_raw of Inl e \<Rightarrow> None | Inr se \<Rightarrow> Some se)))"

text \<open>
  Shapes of strings in the proofs about the fixer: a timestamp text has no whitespace and no
  hyphen; group 3 of a match is whitespace followed by characters of one line; a canonical
  tail is empty, or starts with whitespace, ends with none, and holds no newline after its
  leading whitespace.
\<close>

definition ts_text :: "ustring \<Rightarrow> bool" where
  "ts_text t \<longleftrightarrow> t \<noteq> [] \<and> list_all (\<lambda>c. \<not> is_space c \<and> c \<noteq> 45) t"

definition tail_ok :: "ustring \<Rightarrow> bool" where
  "tail_ok g \<longleftrightarrow> (\<exists>a b. g = a @ b \<and> a \<noteq> [] \<and> list_all is_space a \<and> 10 \<notin> set b)"

definition canon_tail :: "ustring \<Rightarrow> bool" where
  "canon_tail t \<longleftrightarrow>
     t = [] \<or> (is_space (hd t) \<and> \<not> is_space (last t) \<and> 10 \<notin> set (dropWhile is_space t))"

text \<open>The cues the compressor parses from the text of its input file.\<close>

definition compress_input :: "ustring \<Rightarrow> error + ccue list" where
  "compress_input content =
     compress_parse (compress_skip_header (split_on 10 (normalize_newlines content)))"

text \<open>
  A cue of the compressor without and with its two rendered timestamps, and the rendered form
  that is appended to \<open>merged\<close>.
\<close>

definition cue_core :: "ccue \<Rightarrow> int \<times> int \<times> ustring" where
  "cue_core c = (case c of (s, e, s_ts, e_ts, txt) \<Rightarrow> (s, e, txt))"

definition cue_enrich :: "int \<times> int \<times> ustring \<Rightarrow> ccue" where
  "cue_enrich c = (case c of (s, e, txt) \<Rightarrow> (s, e, ms_to_vtt s, ms_to_vtt e, txt))"

definition cue_render :: "int \<times> int \<times> ustring \<Rightarrow> ustring \<times> ustring \<times> ustring" where
  "cue_render c = (case c of (s, e, txt) \<Rightarrow> (ms_to_vtt s, ms_to_vtt e, txt))"

text \<open>
  The notions of the fusion rule in the words of the specification. The sentence-terminal
  punctuation marks are the full stop, the question mark and the exclamation mark, the
  ideographic full stop U+3002, the full-width question mark U+FF1F and exclamation mark
  U+FF01, and the horizontal ellipsis U+2026.
\<close>

definition spec_terminal_marks :: "nat list" where
  "spec_terminal_marks = [46, 63, 33, 12290, 65311, 65281, 8230]"

text \<open>
  Cleaning a text: surrounding whitespace is trimmed; then markup tags are removed, a tag
  being an opening angle bracket, at least one character other than a closing angle bracket,
  and a closing angle bracket; then every run of whitespace becomes a single space. Tags are
  removed in one pass from the left, which carries the characters read since an opening
  bracket that is not closed yet; runs are collapsed in one pass, which carries whether the
  previous character was whitespace.
\<close>

definition spec_trim :: "ustring \<Rightarrow> ustring" where
  "spec_trim s = rev (dropWhile is_space (rev (dropWhile is_space s)))"

fun spec_untag :: "ustring option \<Rightarrow> ustring \<Rightarrow> ustring" where
  "spec_untag None [] = []"
| "spec_untag (Some inside) [] = 60 # inside"
| "spec_untag None (c # cs) =
     (if c = 60 then spec_untag (Some []) cs else c # spec_untag None cs)"
| "spec_untag (Some inside) (c # cs) =
     (if c = 62
      then (if inside = [] then 60 # 62 # spec_untag None cs else spec_untag None cs)
      else spec_untag (Some (inside @ [c])) cs)"

fun spec_collapse :: "bool \<Rightarrow> ustring \<Rightarrow> ustring" where
  "spec_collapse in_run [] = []"
| "spec_collapse in_run (c # cs) =
     (if is_space c
      then (if in_run then spec_collapse True cs else 32 # spec_collapse True cs)
      else c # spec_collapse False cs)"

definition spec_clean :: "ustring \<Rightarrow> ustring" where
  "spec_clean s = spec_collapse False (spec_untag None (spec_trim s))"

text \<open>
  A text is terminal when, cleaned, it is empty or ends in a sentence-terminal mark.
\<close>

definition spec_terminal :: "ustring \<Rightarrow> bool" where
  "spec_terminal s \<longleftrightarrow> spec_clean s = [] \<or> last (spec_clean s) \<in> set spec_terminal_marks"

text \<open>
  The fusion rule: the next cue is fused into the current accumulator exactly when the gap is
  within the threshold, the accumulator's text is not terminal, and the length of the
  accumulator's text, plus one for the space, plus the length of the next text is not above
  \<open>max_chars\<close>. On fusion the end becomes the larger end and the two texts, joined with a
  space, are cleaned again; otherwise the accumulator is flushed and restarted from the next
  cue. The last accumulator is flushed. The fold runs over the cues sorted by start and end.
\<close>

definition spec_fuse :: "int \<Rightarrow> int \<Rightarrow> int \<times> int \<times> ustring \<Rightarrow> int \<times> int \<times> ustring \<Rightarrow> bool" where
  "spec_fuse gap_threshold_ms max_chars cur nxt =
     (case cur of (cur_start, cur_end, cur_text) \<Rightarrow>
      case nxt of (next_start, next_end, next_text) \<Rightarrow>
        next_start - cur_end \<le> gap_threshold_ms \<and>
        \<not> spec_terminal cur_text \<and>
        int (length cur_text) + 1 + int (length next_text) \<le> max_chars)"

text \<open>
  The third condition read as the length of the fused text, that is, of the joined text
  cleaned again.
\<close>

definition spec_fuse_stated ::
  "int \<Rightarrow> int \<Rightarrow> int \<times> int \<times> ustring \<Rightarrow> int \<times> int \<times> ustring \<Rightarrow> bool" where
  "spec_fuse_stated gap_threshold_ms max_chars cur nxt =
     (case cur of (cur_start, cur_end, cur_text) \<Rightarrow>
      case nxt of (next_start, next_end, next_text) \<Rightarrow>
        next_start - cur_end \<le> gap_threshold_ms \<and>
        \<not> spec_terminal cur_text \<and>
        int (length (spec_clean (cur_text @ [32] @ next_text))) \<le> max_chars)"

fun spec_fold ::
  "int \<Rightarrow> int \<Rightarrow> int \<times> int \<times> ustring \<Rightarrow> (int \<times> int \<times> ustring) list \<Rightarrow>
   (int \<times> int \<times> ustring) list" where
  "spec_fold g m cur [] = [cur]"
| "spec_fold g m cur (nxt # rest) =
     (if spec_fuse g m cur nxt
      then spec_fold g m
             (fst cur, max (fst (snd cur)) (fst (snd nxt)),
              spec_clean (snd (snd cur) @ [32] @ snd (snd nxt))) rest
      else cur # spec_fold g m nxt rest)"

fun spec_compress :: "int \<Rightarrow> int \<Rightarrow> (int \<times> int \<times> ustring) list \<Rightarrow> (int \<times> int \<times> ustring) list" where
  "spec_compress g m [] = []"
| "spec_compress g m (c # cs) = spec_fold g m c cs"

text \<open>A cue of the output whose two timestamps decode, the end not before the start.\<close>

definition cue_ordered :: "ustring \<times> ustring \<times> ustring \<Rightarrow> bool" where
  "cue_ordered c =
     (case c of (s_ts, e_ts, txt) \<Rightarrow>
        (case (parse_ts_to_ms s_ts, parse_ts_to_ms e_ts) of
           (Inr s, Inr e) \<Rightarrow> s \<le> e
         | _ \<Rightarrow> False))"


text \<open>
  The bucket index of a cue in the words of the specification, the file written for bucket
  \<open>i\<close> (counted from 0), and the bucket at an index of a growable list.
\<close>

definition spec_bucket_index :: "int \<Rightarrow> int \<Rightarrow> int \<Rightarrow> int" where
  "spec_bucket_index base chunk_duration start = max 0 ((start - base) div chunk_duration)"

definition split_file ::
  "ustring \<Rightarrow> ustring list \<Rightarrow> bool \<Rightarrow> int \<Rightarrow> int \<Rightarrow> nat \<Rightarrow> cue list \<Rightarrow> ustring \<times> ustring list" where
  "split_file stem header rebase base chunk_ms i bucket =
     (stem @ ustr ''_part'' @ py_str_int (int i + 1) @ ustr ''.vtt'',
      (if header \<noteq> [] then header else [ustr ''WEBVTT'' @ [10], [10]]) @
      concat (map (cue_out_lines rebase (base + int i * chunk_ms)) bucket))"

definition bucket_at :: "'a list list \<Rightarrow> nat \<Rightarrow> 'a list" where
  "bucket_at bs i = (if i < length bs then bs ! i else [])"

text \<open>
  The reading of the pure-seconds dialect in the specification, in exact arithmetic: the value
  of the decimal numeral times 1000, rounded to the nearest integer.
\<close>

definition spec_round_ms :: "ustring \<Rightarrow> int" where
  "spec_round_ms ts =
     (let ip = takeWhile is_digit ts; fp = drop (Suc (length ip)) ts
      in round_half_even (digits_value (ip @ fp) * 1000) (10 ^ length fp))"

section \<open>Evaluation on concrete inputs\<close>

text \<open>The defining equations by which the simplifier runs the model on a given input.\<close>

lemmas ev_str = ustr_def py_strip_def py_lstrip_def py_rstrip_def is_space_def
lemmas ev_num = is_digit_def digit_val_def digits_value_def
lemmas ev_float = py_float_def to_double_def floor_log2_def bit_length.simps round_half_even_def
  float_mul_1000_def float_to_int_def
lemmas ev_re = greedy_def lazy_def ws_run_def dot_run_def at_eol_def re_tail_def re_end_field_def
  TS_LINE_RE_def
lemmas ev_parse = parse_ts_to_ms_def pure_seconds_def py_int_def int_space_def split_first_def
  parse_both_def
lemmas ev_hdr = blank_def is_signature_def py_upper_def upper_char_def lstrip_char_def
  rstrip_char_def
lemma replicate_23: "replicate 2 x = [x, x]" "replicate 3 x = [x, x, x]"
  by (simp_all add: numeral_2_eq_2 numeral_3_eq_3)

lemmas ev_enc = ms_to_vtt_def fmt_0d_def dec_digits.simps replicate_23

section \<open>Properties of the timestamp codec\<close>

subsection \<open>Digits, integers and formatting\<close>



lemma digit_val_ascii: "48 \<le> c \<Longrightarrow> c \<le> 57 \<Longrightarrow> digit_val c = Some (c - 48)"
  by (simp add: digit_val_def)

lemma is_digit_ascii: "48 \<le> c \<Longrightarrow> c \<le> 57 \<Longrightarrow> is_digit c"
  by (simp add: is_digit_def digit_val_ascii)

lemma not_space_ascii: "48 \<le> c \<Longrightarrow> c \<le> 57 \<Longrightarrow> \<not> is_space c"
  by (simp add: is_space_def)

lemma not_digit_punct: "\<not> is_digit 58" "\<not> is_digit 46" "\<not> is_digit 45" "\<not> is_digit 32"
  by (simp_all add: is_digit_def digit_val_def)

lemma ascii_digits_simps [simp]:
  "ascii_digits []"
  "ascii_digits (c # s) \<longleftrightarrow> 48 \<le> c \<and> c \<le> 57 \<and> ascii_digits s"
  "ascii_digits (s @ t) \<longleftrightarrow> ascii_digits s \<and> ascii_digits t"
  "ascii_digits (replicate k 48)"
  by (auto simp: ascii_digits_def list_all_iff)

lemma ascii_digitsD: "ascii_digits s \<Longrightarrow> c \<in> set s \<Longrightarrow> 48 \<le> c \<and> c \<le> 57"
  by (simp add: ascii_digits_def list_all_iff)

lemma dec_digits_ascii: "ascii_digits (dec_digits n)"
proof (induction n rule: dec_digits.induct)
  case (1 n)
  have "n mod 10 \<le> 9" by presburger
  with 1 show ?case by (subst dec_digits.simps) simp
qed

lemma dec_digits_ne: "dec_digits n \<noteq> []"
  by (subst dec_digits.simps) simp

lemma digits_value_snoc:
  "48 \<le> c \<Longrightarrow> c \<le> 57 \<Longrightarrow> digits_value (s @ [c]) = 10 * digits_value s + int (c - 48)"
  by (simp add: digits_value_def digit_val_ascii)

lemma digits_value_dec_digits: "digits_value (dec_digits n) = int n"
proof (induction n rule: dec_digits.induct)
  case (1 n)
  show ?case
  proof (cases "n < 10")
    case True
    then show ?thesis
      by (subst dec_digits.simps) (simp add: digits_value_def digit_val_ascii)
  next
    case False
    have "digits_value (dec_digits (n div 10) @ [48 + n mod 10])
            = 10 * digits_value (dec_digits (n div 10)) + int (48 + n mod 10 - 48)"
      by (rule digits_value_snoc) simp_all
    with False 1 show ?thesis
      by (subst dec_digits.simps) (simp add: zdiv_int zmod_int)
  qed
qed

lemma digits_value_zeros: "digits_value (replicate k 48 @ s) = digits_value s"
proof -
  have "foldl (\<lambda>a c. case digit_val c of None \<Rightarrow> a | Some d \<Rightarrow> 10 * a + int d) 0 (replicate k 48)
          = (0::int)"
    by (induction k) (simp_all add: digit_val_def)
  then show ?thesis by (simp add: digits_value_def)
qed

lemma length_dec_digits_3: "n < 1000 \<Longrightarrow> length (dec_digits n) \<le> 3"
  by (simp add: dec_digits.simps [of n] dec_digits.simps [of "n div 10"]
        dec_digits.simps [of "n div 10 div 10"])

lemma fmt_0d_nonneg:
  "0 \<le> n \<Longrightarrow> fmt_0d w n = replicate (w - length (dec_digits (nat n))) 48 @ dec_digits (nat n)"
  by (simp add: fmt_0d_def)

lemma fmt_0d_ascii: "0 \<le> n \<Longrightarrow> ascii_digits (fmt_0d w n)"
  by (simp add: fmt_0d_nonneg dec_digits_ascii)

lemma fmt_0d_ne: "0 \<le> n \<Longrightarrow> fmt_0d w n \<noteq> []"
  by (simp add: fmt_0d_nonneg dec_digits_ne)

lemma fmt_0d_value: "0 \<le> n \<Longrightarrow> digits_value (fmt_0d w n) = n"
  by (simp add: fmt_0d_nonneg digits_value_zeros digits_value_dec_digits)

lemma fmt_0d_3_length: "0 \<le> n \<Longrightarrow> n < 1000 \<Longrightarrow> length (fmt_0d 3 n) = 3"
  using length_dec_digits_3 [of "nat n"] by (simp add: fmt_0d_nonneg)

lemma digits_ok_ascii: "ascii_digits s \<Longrightarrow> digits_ok p s \<longleftrightarrow> (s \<noteq> [] \<or> p)"
  by (induction s arbitrary: p) (auto simp: is_digit_ascii)

lemma strip_pred_id:
  "s \<noteq> [] \<Longrightarrow> \<not> P (hd s) \<Longrightarrow> \<not> P (last s) \<Longrightarrow> rev (dropWhile P (rev (dropWhile P s))) = s"
proof -
  assume a: "s \<noteq> []" "\<not> P (hd s)" "\<not> P (last s)"
  have "dropWhile P s = s" using a by (simp add: dropWhile_eq_self_iff)
  moreover have "dropWhile P (rev s) = rev s" using a by (simp add: dropWhile_eq_self_iff hd_rev)
  ultimately show ?thesis by simp
qed

lemma py_int_ascii:
  assumes "ascii_digits s" "s \<noteq> []"
  shows "py_int s = Inr (digits_value s)"
proof -
  from assms obtain c r where s: "s = c # r" by (cases s) auto
  have hd: "48 \<le> hd s \<and> hd s \<le> 57" using assms by (auto simp: s)
  have "last s \<in> set s" using assms by simp
  then have la: "48 \<le> last s \<and> last s \<le> 57" using assms ascii_digitsD by blast
  have st: "rev (dropWhile int_space (rev (dropWhile int_space s))) = s"
    using assms hd la by (intro strip_pred_id) (auto simp: int_space_def not_space_ascii)
  have c: "c \<noteq> 45" "c \<noteq> 43" using hd by (auto simp: s)
  have ok: "digits_ok False s" using assms by (simp add: digits_ok_ascii)
  have "(case s of [] \<Rightarrow> (False, []) | c # r \<Rightarrow>
            if c = 45 then (True, r) else if c = 43 then (False, r) else (False, s)) = (False, s)"
    using c by (simp add: s)
  then show ?thesis
    unfolding py_int_def st Let_def using ok by simp
qed

lemma py_strip_id:
  "s \<noteq> [] \<Longrightarrow> \<not> is_space (hd s) \<Longrightarrow> \<not> is_space (last s) \<Longrightarrow> py_strip s = s"
  using strip_pred_id [of s is_space] by (simp add: py_strip_def py_lstrip_def py_rstrip_def)

lemma split_on_no_sep: "sep \<notin> set s \<Longrightarrow> split_on sep s = [s]"
  by (induction s) auto

lemma split_on_append: "sep \<notin> set a \<Longrightarrow> split_on sep (a @ sep # b) = a # split_on sep b"
  by (induction a) auto


lemma takeWhile_stop:
  "\<forall>x\<in>set xs. P x \<Longrightarrow> \<not> P y \<Longrightarrow> takeWhile P (xs @ y # ys) = xs"
  by (induction xs) auto

lemma dropWhile_stop:
  "\<forall>x\<in>set xs. P x \<Longrightarrow> \<not> P y \<Longrightarrow> dropWhile P (xs @ y # ys) = y # ys"
  by (induction xs) auto

lemma ascii_digits_is_digit: "ascii_digits s \<Longrightarrow> \<forall>c\<in>set s. is_digit c"
  by (auto dest: ascii_digitsD intro: is_digit_ascii)

lemma ascii_digits_notin:
  "ascii_digits s \<Longrightarrow> 58 \<notin> set s" "ascii_digits s \<Longrightarrow> 46 \<notin> set s"
  "ascii_digits s \<Longrightarrow> 44 \<notin> set s" "ascii_digits s \<Longrightarrow> 45 \<notin> set s"
  by (auto dest: ascii_digitsD)

lemma ascii_digits_not_space: "ascii_digits s \<Longrightarrow> c \<in> set s \<Longrightarrow> \<not> is_space c"
  using ascii_digitsD [of s c] not_space_ascii [of c] by blast

text \<open>The decoder on a string of the canonical form \<open>H:M:S.F\<close>.\<close>

lemma parse_canonical:
  assumes H: "ascii_digits H" "H \<noteq> []" and M: "ascii_digits M" "M \<noteq> []"
    and S: "ascii_digits S" "S \<noteq> []" and F: "ascii_digits F" "length F = 3"
  shows "parse_ts_to_ms (H @ 58 # M @ 58 # S @ 46 # F)
           = Inr ((digits_value H * 3600 + digits_value M * 60 + digits_value S) * 1000
                  + digits_value F)"
proof -
  let ?X = "H @ 58 # M @ 58 # S @ 46 # F"
  have Fne: "F \<noteq> []" using F by auto
  have "last F \<in> set F" using Fne by simp
  then have "\<not> is_space (last ?X)" using F Fne by (simp add: ascii_digits_not_space)
  moreover have "\<not> is_space (hd ?X)" using H by (simp add: ascii_digits_not_space)
  ultimately have strip: "py_strip ?X = ?X" by (intro py_strip_id) simp_all
  have "44 \<notin> set ?X" using H M S F by (simp add: ascii_digits_notin)
  then have comma: "map (\<lambda>c. if c = 44 then 46 else c) ?X = ?X"
    by (intro map_idI) auto
  have tw: "takeWhile is_digit ?X = H" "dropWhile is_digit ?X = 58 # M @ 58 # S @ 46 # F"
    using H by (simp_all add: takeWhile_stop dropWhile_stop ascii_digits_is_digit not_digit_punct)
  have nps: "\<not> pure_seconds ?X"
    by (simp add: pure_seconds_def tw)
  have sp1: "split_on 58 ?X = [H, M, S @ 46 # F]"
    using H M S F by (simp add: split_on_append split_on_no_sep ascii_digits_notin)
  have sp2: "split_on 46 (S @ 46 # F) = [S, F]"
    using S F by (simp add: split_on_append split_on_no_sep ascii_digits_notin)
  have fil: "filter is_digit F = F"
    using F by (simp add: ascii_digits_is_digit)
  show ?thesis
    unfolding parse_ts_to_ms_def strip comma Let_def
    using nps H M S F Fne
    by (simp add: sp1 sp2 fil py_int_ascii)
qed

lemma ms_to_vtt_nonneg:
  assumes "0 \<le> m"
  shows "ms_to_vtt m = fmt_0d 2 (m div 3600000) @ 58 # fmt_0d 2 (m mod 3600000 div 60000) @ 58 #
           fmt_0d 2 (m mod 3600000 mod 60000 div 1000) @ 46 # fmt_0d 3 (m mod 3600000 mod 60000 mod 1000)"
  using assms by (simp add: ms_to_vtt_def Let_def)

lemma ms_to_vtt_clamp: "ms_to_vtt m = ms_to_vtt (max 0 m)"
  by (simp add: ms_to_vtt_def max_def)

lemma roundtrip_nonneg:
  assumes "0 \<le> m"
  shows "parse_ts_to_ms (ms_to_vtt m) = Inr m"
proof -
  define h where "h = m div 3600000"
  define r1 where "r1 = m mod 3600000"
  define mi where "mi = r1 div 60000"
  define r2 where "r2 = r1 mod 60000"
  define s where "s = r2 div 1000"
  define f where "f = r2 mod 1000"
  have r: "0 \<le> r1" "0 \<le> r2" by (simp_all add: r1_def r2_def)
  have nn: "0 \<le> h" "0 \<le> mi" "0 \<le> s" "0 \<le> f" "f < 1000"
    using assms r by (simp_all add: h_def mi_def s_def f_def pos_imp_zdiv_nonneg_iff)
  have e: "m = h * 3600000 + r1" "r1 = mi * 60000 + r2" "r2 = s * 1000 + f"
    by (simp_all add: h_def r1_def mi_def r2_def s_def f_def)
  have "ms_to_vtt m = fmt_0d 2 h @ 58 # fmt_0d 2 mi @ 58 # fmt_0d 2 s @ 46 # fmt_0d 3 f"
    unfolding ms_to_vtt_nonneg [OF assms] h_def r1_def mi_def r2_def s_def f_def ..
  also have "parse_ts_to_ms \<dots> = Inr ((digits_value (fmt_0d 2 h) * 3600 +
      digits_value (fmt_0d 2 mi) * 60 + digits_value (fmt_0d 2 s)) * 1000 + digits_value (fmt_0d 3 f))"
    using nn by (intro parse_canonical fmt_0d_ascii fmt_0d_ne fmt_0d_3_length)
  also have "\<dots> = Inr ((h * 3600 + mi * 60 + s) * 1000 + f)"
    using nn by (simp add: fmt_0d_value)
  also have "(h * 3600 + mi * 60 + s) * 1000 + f = m"
  proof -
    have "m = h * 3600000 + (mi * 60000 + (s * 1000 + f))"
      using e by simp
    then show ?thesis by (simp add: algebra_simps)
  qed
  finally show ?thesis .
qed

subsection \<open>The limit on the digits of an integer\<close>

lemma length_dec_digits_le: "length (dec_digits n) \<le> Suc k \<longleftrightarrow> n < 10 ^ Suc k"
proof (induction k arbitrary: n)
  case 0
  show ?case
  proof (cases "n < 10")
    case True
    then show ?thesis by (simp add: dec_digits.simps [of n])
  next
    case False
    have "dec_digits (n div 10) \<noteq> []" by (rule dec_digits_ne)
    then have "0 < length (dec_digits (n div 10))" by simp
    with False show ?thesis by (simp add: dec_digits.simps [of n])
  qed
next
  case (Suc k)
  show ?case
  proof (cases "n < 10")
    case True
    have "(10::nat) \<le> 10 ^ Suc (Suc k)"
      by (rule self_le_power) simp_all
    with True have "n < 10 ^ Suc (Suc k)" by (rule less_le_trans)
    moreover have "length (dec_digits n) = 1"
      using True by (simp add: dec_digits.simps [of n])
    ultimately show ?thesis by (simp only:) simp
  next
    case False
    have "length (dec_digits n) \<le> Suc (Suc k) \<longleftrightarrow> length (dec_digits (n div 10)) \<le> Suc k"
      using False by (simp add: dec_digits.simps [of n])
    also have "\<dots> \<longleftrightarrow> n div 10 < 10 ^ Suc k" by (rule Suc.IH)
    also have "\<dots> \<longleftrightarrow> n < 10 ^ Suc k * 10"
      by (rule less_mult_imp_div_less div_less_iff_less_mult) simp
    finally show ?thesis by (simp add: mult.commute)
  qed
qed

lemma int_max_str_digits_Suc: "int_max_str_digits = Suc (int_max_str_digits - 1)"
  by (simp add: int_max_str_digits_def)

lemma dec_digits_within_limit:
  "length (dec_digits n) \<le> int_max_str_digits \<longleftrightarrow> n < 10 ^ int_max_str_digits"
  using length_dec_digits_le [of n "int_max_str_digits - 1"] int_max_str_digits_Suc by simp

lemma int_max_str_digits_ge: "3 \<le> int_max_str_digits"
  by (simp add: int_max_str_digits_def)

lemma small_within_limit: "n < 1000 \<Longrightarrow> n < (10::int) ^ int_max_str_digits"
proof -
  assume "n < 1000"
  moreover have "(10::int) ^ 3 \<le> 10 ^ int_max_str_digits"
    using int_max_str_digits_ge by (rule power_increasing) simp
  ultimately show ?thesis by simp
qed

lemma fmt_0d_limited_nonneg:
  assumes "0 \<le> n"
  shows "fmt_0d_limited w n =
           (if n < 10 ^ int_max_str_digits then Inr (fmt_0d w n) else Inl ValueError)"
proof -
  have "nat n < 10 ^ int_max_str_digits \<longleftrightarrow> n < 10 ^ int_max_str_digits"
    using assms by (simp add: nat_less_iff)
  with dec_digits_within_limit [of "nat n"]
  have "length (dec_digits (nat n)) \<le> int_max_str_digits \<longleftrightarrow> n < 10 ^ int_max_str_digits"
    by simp
  then have "int_max_str_digits < length (dec_digits (nat n)) \<longleftrightarrow>
               \<not> n < 10 ^ int_max_str_digits"
    by auto
  moreover have "nat \<bar>n\<bar> = nat n" using assms by simp
  ultimately show ?thesis
    by (simp add: fmt_0d_limited_def)
qed

lemma fmt_0d_limited_small:
  "0 \<le> n \<Longrightarrow> n < 1000 \<Longrightarrow> fmt_0d_limited w n = Inr (fmt_0d w n)"
  by (simp add: fmt_0d_limited_nonneg small_within_limit)

lemma ms_to_vtt_limited_nonneg:
  assumes "0 \<le> m"
  shows "ms_to_vtt_limited m =
           (if m div 3600000 < 10 ^ int_max_str_digits then Inr (ms_to_vtt m)
            else Inl ValueError)"
proof -
  define h where "h = m div 3600000"
  define r1 where "r1 = m mod 3600000"
  define mi where "mi = r1 div 60000"
  define r2 where "r2 = r1 mod 60000"
  define s where "s = r2 div 1000"
  define f where "f = r2 mod 1000"
  have r: "0 \<le> r1" "r1 < 3600000" "0 \<le> r2" "r2 < 60000"
    by (simp_all add: r1_def r2_def)
  have nn: "0 \<le> h" "0 \<le> mi" "0 \<le> s" "0 \<le> f"
    using assms r by (simp_all add: h_def mi_def s_def f_def pos_imp_zdiv_nonneg_iff)
  have "mi < 60" using r by (simp add: mi_def)
  then have mi: "mi < 1000" by simp
  have "s < 60" using r by (simp add: s_def)
  then have s: "s < 1000" by simp
  have f: "f < 1000" by (simp add: f_def)
  have mm: "(if m < 0 then 0 else m) = m" using assms by simp
  have "ms_to_vtt_limited m =
          (case fmt_0d_limited 2 h of Inl e \<Rightarrow> Inl e
           | Inr a \<Rightarrow>
              (case fmt_0d_limited 2 mi of Inl e \<Rightarrow> Inl e
               | Inr b \<Rightarrow>
                  (case fmt_0d_limited 2 s of Inl e \<Rightarrow> Inl e
                   | Inr c \<Rightarrow>
                      (case fmt_0d_limited 3 f of Inl e \<Rightarrow> Inl e
                       | Inr d \<Rightarrow> Inr (a @ [58] @ b @ [58] @ c @ [46] @ d)))))"
    unfolding ms_to_vtt_limited_def Let_def mm h_def r1_def mi_def r2_def s_def f_def ..
  also have "\<dots> = (if h < 10 ^ int_max_str_digits
                    then Inr (fmt_0d 2 h @ [58] @ fmt_0d 2 mi @ [58] @ fmt_0d 2 s @ [46] @ fmt_0d 3 f)
                    else Inl ValueError)"
    using nn mi s f
    by (cases "h < 10 ^ int_max_str_digits")
       (simp_all add: fmt_0d_limited_small fmt_0d_limited_nonneg [of h])
  also have "fmt_0d 2 h @ [58] @ fmt_0d 2 mi @ [58] @ fmt_0d 2 s @ [46] @ fmt_0d 3 f = ms_to_vtt m"
    unfolding ms_to_vtt_nonneg [OF assms] h_def r1_def mi_def r2_def s_def f_def by simp
  finally show ?thesis unfolding h_def .
qed

lemma ms_to_vtt_limited_clamp: "m < 0 \<Longrightarrow> ms_to_vtt_limited m = ms_to_vtt_limited 0"
  by (simp add: ms_to_vtt_limited_def)

lemma hours_within_limit:
  fixes m :: int
  shows "m div 3600000 < 10 ^ int_max_str_digits \<longleftrightarrow> m < 3600000 * 10 ^ int_max_str_digits"
proof -
  define K :: int where "K = 10 ^ int_max_str_digits"
  define q where "q = m div 3600000"
  define r where "r = m mod 3600000"
  have "m = q * 3600000 + r" "0 \<le> r" "r < 3600000"
    by (simp_all add: q_def r_def)
  then have "q < K \<longleftrightarrow> m < 3600000 * K"
    by linarith
  then show ?thesis by (simp only: K_def q_def)
qed

lemma py_int_limited_ascii:
  assumes "ascii_digits s" "s \<noteq> []" "length s \<le> int_max_str_digits"
  shows "py_int_limited s = Inr (digits_value s)"
proof -
  have "filter is_digit s = s"
    using assms(1) by (simp add: ascii_digits_is_digit)
  then show ?thesis
    using assms by (simp add: py_int_limited_def py_int_ascii)
qed

text \<open>The decoder under the limit on a string of the canonical form \<open>H:M:S.F\<close>.\<close>

lemma parse_limited_canonical:
  assumes H: "ascii_digits H" "H \<noteq> []" "length H \<le> int_max_str_digits"
    and M: "ascii_digits M" "M \<noteq> []" "length M \<le> int_max_str_digits"
    and S: "ascii_digits S" "S \<noteq> []" "length S \<le> int_max_str_digits"
    and F: "ascii_digits F" "length F = 3"
  shows "parse_ts_to_ms_limited (H @ 58 # M @ 58 # S @ 46 # F)
           = Inr ((digits_value H * 3600 + digits_value M * 60 + digits_value S) * 1000
                  + digits_value F)"
proof -
  let ?X = "H @ 58 # M @ 58 # S @ 46 # F"
  have Fne: "F \<noteq> []" using F by auto
  have "last F \<in> set F" using Fne by simp
  then have "\<not> is_space (last ?X)" using F Fne by (simp add: ascii_digits_not_space)
  moreover have "\<not> is_space (hd ?X)" using H by (simp add: ascii_digits_not_space)
  ultimately have strip: "py_strip ?X = ?X" by (intro py_strip_id) simp_all
  have "44 \<notin> set ?X" using H M S F by (simp add: ascii_digits_notin)
  then have comma: "map (\<lambda>c. if c = 44 then 46 else c) ?X = ?X"
    by (intro map_idI) auto
  have tw: "takeWhile is_digit ?X = H" "dropWhile is_digit ?X = 58 # M @ 58 # S @ 46 # F"
    using H by (simp_all add: takeWhile_stop dropWhile_stop ascii_digits_is_digit not_digit_punct)
  have nps: "\<not> pure_seconds ?X"
    by (simp add: pure_seconds_def tw)
  have sp1: "split_on 58 ?X = [H, M, S @ 46 # F]"
    using H M S F by (simp add: split_on_append split_on_no_sep ascii_digits_notin)
  have sp2: "split_on 46 (S @ 46 # F) = [S, F]"
    using S F by (simp add: split_on_append split_on_no_sep ascii_digits_notin)
  have fil: "filter is_digit F = F"
    using F by (simp add: ascii_digits_is_digit)
  show ?thesis
    unfolding parse_ts_to_ms_limited_def strip comma Let_def
    using nps H M S F Fne
    by (simp add: sp1 sp2 fil py_int_limited_ascii)
qed

lemma length_fmt_0d_2:
  assumes "0 \<le> n" "n < 10 ^ int_max_str_digits"
  shows "length (fmt_0d 2 n) \<le> int_max_str_digits"
proof -
  have "nat n < 10 ^ int_max_str_digits"
    using assms by (simp add: nat_less_iff)
  then have "length (dec_digits (nat n)) \<le> int_max_str_digits"
    by (simp add: dec_digits_within_limit)
  then show ?thesis
    using assms(1) int_max_str_digits_ge by (simp add: fmt_0d_nonneg)
qed

lemma roundtrip_limited:
  assumes "0 \<le> m" "m div 3600000 < 10 ^ int_max_str_digits"
  shows "parse_ts_to_ms_limited (ms_to_vtt m) = Inr m"
proof -
  define h where "h = m div 3600000"
  define r1 where "r1 = m mod 3600000"
  define mi where "mi = r1 div 60000"
  define r2 where "r2 = r1 mod 60000"
  define s where "s = r2 div 1000"
  define f where "f = r2 mod 1000"
  have r: "0 \<le> r1" "0 \<le> r2" "r1 < 3600000" "r2 < 60000" by (simp_all add: r1_def r2_def)
  have nn: "0 \<le> h" "0 \<le> mi" "0 \<le> s" "0 \<le> f" "f < 1000"
    using assms r by (simp_all add: h_def mi_def s_def f_def pos_imp_zdiv_nonneg_iff)
  have "mi < 60" using r by (simp add: mi_def)
  then have mi: "mi < 10 ^ int_max_str_digits" by (intro small_within_limit) simp
  have "s < 60" using r by (simp add: s_def)
  then have s: "s < 10 ^ int_max_str_digits" by (intro small_within_limit) simp
  have h: "h < 10 ^ int_max_str_digits" using assms(2) by (simp add: h_def)
  have e: "m = h * 3600000 + r1" "r1 = mi * 60000 + r2" "r2 = s * 1000 + f"
    by (simp_all add: h_def r1_def mi_def r2_def s_def f_def)
  have "ms_to_vtt m = fmt_0d 2 h @ 58 # fmt_0d 2 mi @ 58 # fmt_0d 2 s @ 46 # fmt_0d 3 f"
    unfolding ms_to_vtt_nonneg [OF assms(1)] h_def r1_def mi_def r2_def s_def f_def ..
  also have "parse_ts_to_ms_limited \<dots> = Inr ((digits_value (fmt_0d 2 h) * 3600 +
      digits_value (fmt_0d 2 mi) * 60 + digits_value (fmt_0d 2 s)) * 1000 + digits_value (fmt_0d 3 f))"
    using nn h mi s
    by (intro parse_limited_canonical fmt_0d_ascii fmt_0d_ne fmt_0d_3_length length_fmt_0d_2)
  also have "\<dots> = Inr ((h * 3600 + mi * 60 + s) * 1000 + f)"
    using nn by (simp add: fmt_0d_value)
  also have "(h * 3600 + mi * 60 + s) * 1000 + f = m"
  proof -
    have "m = h * 3600000 + (mi * 60000 + (s * 1000 + f))"
      using e by simp
    then show ?thesis by (simp add: algebra_simps)
  qed
  finally show ?thesis .
qed

text \<open>
  Claim C4, as amended: under the interpreter's default limit of 4300 digits, for every
  millisecond value \<open>m\<close> with \<open>0 \<le> m < 3600000 * 10 ^ 4300\<close> the encoder returns and decoding
  the encoded text gives \<open>m\<close> back; from \<open>3600000 * 10 ^ 4300\<close> on, where the hour count has
  more than 4300 digits, the encoder raises \<open>ValueError\<close>; a negative input is encoded as 0
  is. With the limit switched off the round trip holds for every \<open>m \<ge> 0\<close>.
\<close>

theorem decode_encode_roundtrip:
  "(0 \<le> m \<longrightarrow> m < 3600000 * 10 ^ int_max_str_digits \<longrightarrow>
      ms_to_vtt_limited m = Inr (ms_to_vtt m) \<and> parse_ts_to_ms_limited (ms_to_vtt m) = Inr m) \<and>
   (3600000 * 10 ^ int_max_str_digits \<le> m \<longrightarrow> ms_to_vtt_limited m = Inl ValueError) \<and>
   (m < 0 \<longrightarrow> ms_to_vtt_limited m = ms_to_vtt_limited 0 \<and> ms_to_vtt m = ms_to_vtt 0) \<and>
   (0 \<le> m \<longrightarrow> parse_ts_to_ms (ms_to_vtt m) = Inr m)"
proof (intro conjI impI)
  assume m: "0 \<le> m" "m < 3600000 * 10 ^ int_max_str_digits"
  then have h: "m div 3600000 < 10 ^ int_max_str_digits"
    using hours_within_limit [of m] by blast
  show "ms_to_vtt_limited m = Inr (ms_to_vtt m)"
    using m(1) h by (simp add: ms_to_vtt_limited_nonneg)
  show "parse_ts_to_ms_limited (ms_to_vtt m) = Inr m"
    using m(1) h by (rule roundtrip_limited)
next
  assume m: "3600000 * 10 ^ int_max_str_digits \<le> m"
  then have "\<not> m < 3600000 * 10 ^ int_max_str_digits" by simp
  then have h: "\<not> m div 3600000 < 10 ^ int_max_str_digits"
    using hours_within_limit [of m] by blast
  have "(0::int) \<le> 3600000 * 10 ^ int_max_str_digits" by simp
  from this m have "0 \<le> m" by (rule order_trans)
  then show "ms_to_vtt_limited m = Inl ValueError"
    using h by (simp add: ms_to_vtt_limited_nonneg)
next
  assume "m < 0"
  then show "ms_to_vtt_limited m = ms_to_vtt_limited 0"
    by (rule ms_to_vtt_limited_clamp)
next
  assume "m < 0"
  then show "ms_to_vtt m = ms_to_vtt 0" by (simp add: ms_to_vtt_def)
next
  assume "0 \<le> m"
  then show "parse_ts_to_ms (ms_to_vtt m) = Inr m" by (rule roundtrip_nonneg)
qed

theorem decode_encode_roundtrip_witness:
  "(3723500::int) < 3600000 * 10 ^ int_max_str_digits \<and>
   ms_to_vtt_limited 3723500 = Inr (ustr ''01:02:03.500'') \<and>
   parse_ts_to_ms_limited (ustr ''01:02:03.500'') = Inr 3723500 \<and>
   parse_ts_to_ms (ustr ''01:02:03.500'') = Inr 3723500 \<and>
   ms_to_vtt_limited (- 5) = ms_to_vtt_limited 0 \<and> ms_to_vtt (- 5) = ms_to_vtt 0 \<and>
   ms_to_vtt_limited (3600000 * 10 ^ int_max_str_digits) = Inl ValueError"
proof -
  have e: "ms_to_vtt 3723500 = ustr ''01:02:03.500''"
    by (simp add: ev_enc ustr_def)
  have "(3723500::int) div 3600000 < 1000" by simp
  then have "(3723500::int) div 3600000 < 10 ^ int_max_str_digits"
    by (rule small_within_limit)
  then have b: "(3723500::int) < 3600000 * 10 ^ int_max_str_digits"
    using hours_within_limit [of 3723500] by blast
  have p: "(0::int) \<le> 3723500" and n: "(- 5::int) < 0" by simp_all
  note T = decode_encode_roundtrip [of 3723500]
  note N = decode_encode_roundtrip [of "- 5"]
  from T p b have "ms_to_vtt_limited 3723500 = Inr (ms_to_vtt 3723500)"
    "parse_ts_to_ms_limited (ms_to_vtt 3723500) = Inr 3723500"
    "parse_ts_to_ms (ms_to_vtt 3723500) = Inr 3723500"
    by blast+
  moreover from N n have "ms_to_vtt_limited (- 5) = ms_to_vtt_limited 0"
    "ms_to_vtt (- 5) = ms_to_vtt 0"
    by blast+
  moreover have "ms_to_vtt_limited (3600000 * 10 ^ int_max_str_digits) = Inl ValueError"
    using decode_encode_roundtrip [of "3600000 * 10 ^ int_max_str_digits"] by blast
  ultimately show ?thesis
    using b unfolding e by (intro conjI)
qed

text \<open>
  Claim C4 as stated fails under the default limit: at \<open>3600000 * 10 ^ 4300\<close> ms the hour
  count is \<open>10 ^ 4300\<close>, which has 4301 digits, and the encoder raises \<open>ValueError\<close>.
\<close>

theorem encoder_fails_beyond_digit_limit:
  "ms_to_vtt_limited (3600000 * 10 ^ 4300) = Inl ValueError"
proof -
  have "(3600000 * 10 ^ int_max_str_digits :: int) div 3600000 = 10 ^ int_max_str_digits"
    by simp
  moreover have "(0::int) \<le> 3600000 * 10 ^ int_max_str_digits"
    by simp
  ultimately have "ms_to_vtt_limited (3600000 * 10 ^ int_max_str_digits) = Inl ValueError"
    by (simp add: ms_to_vtt_limited_nonneg)
  then show ?thesis
    unfolding int_max_str_digits_def .
qed

text \<open>
  Claim C5: a timestamp of the pure-seconds dialect decodes to its value times 1000, rounded.
  The decoder computes \<open>int(float(ts) * 1000)\<close> instead: the product of two doubles, truncated.
  On \<open>1.001\<close> the product is the double just below 1001 and the decoder returns 1000, where
  the rounded value is 1001, which is also what the colon dialect returns for \<open>0:01.001\<close>.
\<close>

theorem pure_seconds_truncated_product:
  "pure_seconds (ustr ''1.001'') \<and> parse_ts_to_ms (ustr ''1.001'') = Inr 1000 \<and>
   spec_round_ms (ustr ''1.001'') = 1001 \<and> parse_ts_to_ms (ustr ''0:01.001'') = Inr 1001 \<and>
   parse_ts_to_ms (ustr ''46.550'') = Inr 46550"
proof -
  have "pure_seconds (ustr ''1.001'')"
    by (simp add: pure_seconds_def ev_str ev_num)
  moreover have "parse_ts_to_ms (ustr ''1.001'') = Inr 1000"
    by (simp add: ev_parse ev_str ev_num ev_float Let_def)
  moreover have "spec_round_ms (ustr ''1.001'') = 1001"
    by (simp add: spec_round_ms_def ev_str ev_num round_half_even_def Let_def)
  moreover have "parse_ts_to_ms (ustr ''0:01.001'') = Inr 1001"
    by (simp add: ev_parse ev_str ev_num Let_def)
  moreover have "parse_ts_to_ms (ustr ''46.550'') = Inr 46550"
    by (simp add: ev_parse ev_str ev_num ev_float Let_def)
  ultimately show ?thesis by simp
qed

section \<open>Properties of the document splitter\<close>

text \<open>
  Claim C3: when the first non-blank line of a document does not start with the signature
  token, the splitter returns an empty header and the whole remaining document as the body.
  The loop that collects the metadata lines of the header runs whether or not a signature
  line was found: in a document that starts with a cue, the first cue block becomes the
  header and is missing from the body.
\<close>

theorem split_header_without_signature:
  "\<not> is_signature (ustr ''00:00:01.000 --> 00:00:02.000'' @ [10]) \<and>
   split_header_and_body
     [ustr ''00:00:01.000 --> 00:00:02.000'' @ [10], ustr ''Hi'' @ [10], [10],
      ustr ''00:00:03.000 --> 00:00:04.000'' @ [10], ustr ''Yo'' @ [10]] =
     ([ustr ''00:00:01.000 --> 00:00:02.000'' @ [10], ustr ''Hi'' @ [10], [10]],
      [ustr ''00:00:03.000 --> 00:00:04.000'' @ [10], ustr ''Yo'' @ [10]])"
  by (simp add: split_header_and_body_def ev_hdr ev_str Let_def)

section \<open>Recovery from malformed timestamps\<close>

text \<open>
  Claim C1: in every component that decodes timestamps, a timestamp line with a field that
  does not decode is skipped or passed through, and the document is processed to its end.
  The parsing loop of \<open>cmd_compress\<close> decodes outside any \<open>try\<close> block. On a document whose
  second cue has a malformed start, the compressor ends with the decoder's \<open>ValueError\<close>; the
  cue parser drops that cue and the fixer passes the line through, on the same lines.
\<close>

theorem compress_aborts_on_malformed_timestamp:
  "cmd_compress (ustr ''WEBVTT'' @ [10, 10] @ ustr ''00:00:01.000 --> 00:00:02.000'' @ [10] @
                 ustr ''Hello'' @ [10, 10] @ ustr ''foo --> 00:00:04.000'' @ [10] @
                 ustr ''world'' @ [10]) 500 130 = Inl ValueError \<and>
   iter_cues [ustr ''00:00:01.000 --> 00:00:02.000'' @ [10], ustr ''Hello'' @ [10], [10],
              ustr ''foo --> 00:00:04.000'' @ [10], ustr ''world'' @ [10]] =
     Inr [\<lparr>start_ms = 1000, end_ms = 2000, text_lines = [ustr ''Hello''],
           ts_line = ustr ''00:00:01.000 --> 00:00:02.000''\<rparr>] \<and>
   fix_vtt_timestamps [ustr ''00:00:01.000 --> 00:00:02.000'' @ [10], ustr ''Hello'' @ [10], [10],
                       ustr ''foo --> 00:00:04.000'' @ [10], ustr ''world'' @ [10]] =
     Inr ([ustr ''00:00:01.000 --> 00:00:02.000'' @ [10], ustr ''Hello'' @ [10], [10],
           ustr ''foo --> 00:00:04.000'' @ [10], ustr ''world'' @ [10]],
          [(4, SKIP_UNPARSEABLE, Raised ValueError)])"
proof -
  have "cmd_compress (ustr ''WEBVTT'' @ [10, 10] @ ustr ''00:00:01.000 --> 00:00:02.000'' @ [10] @
                 ustr ''Hello'' @ [10, 10] @ ustr ''foo --> 00:00:04.000'' @ [10] @
                 ustr ''world'' @ [10]) 500 130 = Inl ValueError"
    by (simp add: cmd_compress_def compress_skip_header_def ev_hdr ev_re ev_str ev_num ev_parse
          ev_enc clean_text_def Let_def)
  moreover have "iter_cues [ustr ''00:00:01.000 --> 00:00:02.000'' @ [10], ustr ''Hello'' @ [10],
              [10], ustr ''foo --> 00:00:04.000'' @ [10], ustr ''world'' @ [10]] =
     Inr [\<lparr>start_ms = 1000, end_ms = 2000, text_lines = [ustr ''Hello''],
           ts_line = ustr ''00:00:01.000 --> 00:00:02.000''\<rparr>]"
    by (simp add: ev_hdr ev_re ev_str ev_num ev_parse Let_def)
  moreover have "fix_vtt_timestamps [ustr ''00:00:01.000 --> 00:00:02.000'' @ [10],
                       ustr ''Hello'' @ [10], [10],
                       ustr ''foo --> 00:00:04.000'' @ [10], ustr ''world'' @ [10]] =
     Inr ([ustr ''00:00:01.000 --> 00:00:02.000'' @ [10], ustr ''Hello'' @ [10], [10],
           ustr ''foo --> 00:00:04.000'' @ [10], ustr ''world'' @ [10]],
          [(4, SKIP_UNPARSEABLE, Raised ValueError)])"
    by (simp add: fix_vtt_timestamps_def fix_line_def ev_hdr ev_re ev_str ev_num ev_parse ev_enc
          replicate_23 Let_def)
  ultimately show ?thesis by (simp only: simp_thms)
qed

section \<open>Properties of the timeline fixer\<close>

subsection \<open>The backtracking search\<close>

lemma first_some_SomeD: "first_some f xs = Some r \<Longrightarrow> \<exists>x\<in>set xs. f x = Some r"
  by (induction xs) (auto split: option.splits)

lemma first_some_hit:
  "\<forall>y\<in>set ys. f y = None \<Longrightarrow> f x = Some r \<Longrightarrow> first_some f (ys @ x # zs) = Some r"
  by (induction ys) auto

lemma first_some_None: "\<forall>x\<in>set xs. f x = None \<Longrightarrow> first_some f xs = None"
  by (induction xs) auto

lemma greedy_top: "lo \<le> hi \<Longrightarrow> f hi = Some r \<Longrightarrow> greedy lo hi f = Some r"
  by (simp add: greedy_def)

lemma greedy_empty: "hi < lo \<Longrightarrow> greedy lo hi f = None"
  by (simp add: greedy_def)

lemma greedy_SomeD: "greedy lo hi f = Some r \<Longrightarrow> \<exists>n. lo \<le> n \<and> n \<le> hi \<and> f n = Some r"
  unfolding greedy_def by (drule first_some_SomeD) auto

lemma lazy_SomeD: "lazy lo hi f = Some r \<Longrightarrow> \<exists>n. lo \<le> n \<and> n \<le> hi \<and> f n = Some r"
  unfolding lazy_def by (drule first_some_SomeD) auto

lemma lazy_hit:
  assumes "lo \<le> n" "n \<le> hi" "\<forall>m. lo \<le> m \<and> m < n \<longrightarrow> f m = None" "f n = Some r"
  shows "lazy lo hi f = Some r"
proof -
  have "[lo..<n + (Suc hi - n)] = [lo..<n] @ [n..<n + (Suc hi - n)]"
    using assms(1) by (rule upt_add_eq_append)
  moreover have "[n..<Suc hi] = n # [Suc n..<Suc hi]"
    using assms(2) by (simp add: upt_conv_Cons)
  ultimately have "[lo..<Suc hi] = [lo..<n] @ n # [Suc n..<Suc hi]"
    using assms(2) by simp
  then show ?thesis
    unfolding lazy_def using assms(3,4) by (simp add: first_some_hit)
qed

lemma ws_run_0: "s = [] \<or> \<not> is_space (hd s) \<Longrightarrow> ws_run s = 0"
  by (cases s) (auto simp: ws_run_def)

lemma ws_run_space_then: "\<not> is_space c \<Longrightarrow> ws_run (32 # c # s) = 1"
  by (simp add: ws_run_def is_space_def)

lemma takeWhile_all_append: "\<forall>x\<in>set a. P x \<Longrightarrow> takeWhile P (a @ b) = a @ takeWhile P b"
  by (induction a) auto

lemma dropWhile_all_append: "\<forall>x\<in>set a. P x \<Longrightarrow> dropWhile P (a @ b) = dropWhile P b"
  by (induction a) auto

lemma dot_run_ge: "10 \<notin> set a \<Longrightarrow> length a \<le> dot_run (a @ b)"
  by (subst dot_run_def, subst takeWhile_all_append) auto

lemma dot_run_nl: "10 \<notin> set a \<Longrightarrow> dot_run (a @ 10 # b) = length a"
  by (subst dot_run_def, subst takeWhile_all_append) auto

lemma ts_textD:
  assumes "ts_text t"
  shows "t \<noteq> []" "c \<in> set t \<Longrightarrow> \<not> is_space c" "c \<in> set t \<Longrightarrow> c \<noteq> 45" "10 \<notin> set t"
    "\<not> is_space (hd t)" "\<not> is_space (last t)" "m < length t \<Longrightarrow> \<not> is_space (t ! m)"
    "m < length t \<Longrightarrow> t ! m \<noteq> 45"
proof -
  show ne: "t \<noteq> []" using assms by (simp add: ts_text_def)
  show sp: "\<not> is_space c" if "c \<in> set t" for c
    using assms that by (auto simp: ts_text_def list_all_iff)
  show mi: "c \<noteq> 45" if "c \<in> set t" for c
    using assms that by (auto simp: ts_text_def list_all_iff)
  show "10 \<notin> set t" using sp [of 10] by (auto simp: is_space_def)
  show "\<not> is_space (hd t)" using ne sp by simp
  show "\<not> is_space (last t)" using ne sp by simp
  show "\<not> is_space (t ! m)" if "m < length t" using that sp by simp
  show "t ! m \<noteq> 45" if "m < length t" using that mi [of "t ! m"] by simp
qed

text \<open>The match of the tail pattern on a canonical tail followed by the newline.\<close>

lemma re_tail_canonical:
  assumes "canon_tail t"
  shows "re_tail (t @ [10]) = Some (Some (if t = [] then [10] else t))"
proof (cases "t = []")
  case True
  have "re_tail [10] = Some (Some [10])"
    by (simp add: re_tail_def ws_run_def is_space_def dot_run_def greedy_def at_eol_def)
  then show ?thesis using True by simp
next
  case False
  define a where "a = takeWhile is_space t"
  define d where "d = dropWhile is_space t"
  define w where "w = length a"
  have td: "t = a @ d" by (simp add: a_def d_def)
  have asp: "\<forall>x\<in>set a. is_space x" by (auto simp: a_def dest: set_takeWhileD)
  from assms False have c: "is_space (hd t)" "\<not> is_space (last t)" "10 \<notin> set d"
    by (auto simp: canon_tail_def d_def)
  have w1: "1 \<le> w" using False c(1) by (cases t) (auto simp: w_def a_def)
  have dne: "d \<noteq> []"
  proof
    assume "d = []"
    then have "\<forall>x\<in>set t. is_space x" by (simp add: d_def dropWhile_eq_Nil_conv)
    then show False using c(2) False by simp
  qed
  have hdd: "\<not> is_space (hd d)" using dne by (simp add: d_def hd_dropWhile)
  have "takeWhile is_space (d @ [10]) = []"
    using dne hdd by (cases d) simp_all
  then have "takeWhile is_space (a @ d @ [10]) = a"
    using asp by (simp add: takeWhile_all_append)
  then have wr: "ws_run (t @ [10]) = w"
    unfolding td w_def ws_run_def by simp
  have dr: "drop w (t @ [10]) = d @ [10]"
    unfolding td w_def by simp
  have tk: "take (w + length d) (t @ [10]) = t"
    unfolding td w_def by simp
  have inner: "greedy 0 (dot_run (d @ [10])) (\<lambda>n. if at_eol (drop n (d @ [10]))
                  then Some (take (w + n) (t @ [10])) else None) = Some t"
    by (rule greedy_top) (simp_all add: dot_run_nl c(3) at_eol_def tk del: take_append)
  have "(let r' = drop w (t @ [10]) in
           greedy 0 (dot_run r') (\<lambda>n. if at_eol (drop n r') then Some (take (w + n) (t @ [10])) else None))
         = Some t"
    unfolding dr Let_def by (rule inner)
  then have "greedy 1 (ws_run (t @ [10])) (\<lambda>k. let r' = drop k (t @ [10]) in
           greedy 0 (dot_run r') (\<lambda>n. if at_eol (drop n r') then Some (take (k + n) (t @ [10])) else None))
         = Some t"
    unfolding wr by (rule greedy_top [OF w1])
  then show ?thesis using False by (simp add: re_tail_def)
qed

lemma greedy_0_0: "greedy 0 0 f = f 0"
  by (simp add: greedy_def split: option.splits)

lemma re_end_field_canonical:
  assumes t2: "ts_text t2" and t: "canon_tail t"
  shows "re_end_field (32 # t2 @ t @ [10]) = Some (t2, Some (if t = [] then [10] else t))"
proof -
  let ?P = "if t = [] then [10] else t"
  let ?r = "t2 @ t @ [10]"
  let ?f = "\<lambda>n. case re_tail (drop n ?r) of None \<Rightarrow> None | Some g3 \<Rightarrow> Some (take n ?r, g3)"
  have ws: "ws_run (32 # ?r) = 1"
    using ts_textD(1,5) [OF t2] by (cases t2) (simp_all add: ws_run_def is_space_def)
  have none: "?f m = None" if m: "1 \<le> m" "m < length t2" for m
  proof -
    obtain x xs where x: "drop m t2 = x # xs"
      using m by (cases "drop m t2") auto
    have "x = t2 ! m" using x m by (metis nth_via_drop)
    then have nsp: "\<not> is_space x" using ts_textD(7) [OF t2 m(2)] by simp
    have dr: "drop m ?r = x # xs @ t @ [10]" using m x by simp
    have "re_tail (x # xs @ t @ [10]) = None"
      using nsp by (simp add: re_tail_def ws_run_def greedy_empty at_eol_def)
    then show ?thesis unfolding dr by simp
  qed
  have hit: "?f (length t2) = Some (t2, Some ?P)"
    using re_tail_canonical [OF t] by simp
  have inner: "lazy 1 (dot_run ?r) ?f = Some (t2, Some ?P)"
  proof (rule lazy_hit [where n = "length t2"])
    show "1 \<le> length t2" using ts_textD(1) [OF t2] by (cases t2) auto
    show "length t2 \<le> dot_run ?r" using ts_textD(4) [OF t2] by (rule dot_run_ge)
    show "\<forall>m. 1 \<le> m \<and> m < length t2 \<longrightarrow> ?f m = None" using none by blast
    show "?f (length t2) = Some (t2, Some ?P)" by (rule hit)
  qed
  have "(let r' = drop 1 (32 # ?r) in lazy 1 (dot_run r') (\<lambda>n.
          case re_tail (drop n r') of None \<Rightarrow> None | Some g3 \<Rightarrow> Some (take n r', g3)))
        = Some (t2, Some ?P)"
    using inner by (simp add: Let_def)
  then show ?thesis
    unfolding re_end_field_def ws by (rule greedy_top [OF le0])
qed

lemma TS_LINE_RE_canonical:
  assumes t1: "ts_text t1" and t2: "ts_text t2" and t: "canon_tail t"
  shows "TS_LINE_RE (t1 @ ustr '' --> '' @ t2 @ t @ [10])
           = Some (t1, t2, Some (if t = [] then [10] else t))"
proof -
  let ?P = "if t = [] then [10] else t"
  let ?rest = "[32, 45, 45, 62, 32] @ t2 @ t @ [10]"
  let ?line = "t1 @ ?rest"
  let ?g = "\<lambda>n1 r1 k1.
           if take 3 (drop k1 r1) = [45, 45, 62]
           then (case re_end_field (drop 3 (drop k1 r1)) of
                   None \<Rightarrow> None
                 | Some (g2, g3) \<Rightarrow> Some (take n1 ?line, g2, g3))
           else None"
  let ?f = "\<lambda>n1. greedy 0 (ws_run (drop n1 ?line)) (?g n1 (drop n1 ?line))"
  have arrow: "ustr '' --> '' = [32, 45, 45, 62, 32]" "ustr ''-->'' = [45, 45, 62]"
    by (simp_all add: ustr_def)
  have ws0: "ws_run ?line = 0"
    using ts_textD(1,5) [OF t1] by (intro ws_run_0) simp
  have none: "?f m = None" if m: "1 \<le> m" "m < length t1" for m
  proof -
    obtain x xs where x: "drop m t1 = x # xs"
      using m by (cases "drop m t1") auto
    have xe: "x = t1 ! m" using x m by (metis nth_via_drop)
    have nsp: "\<not> is_space x" and nm: "x \<noteq> 45"
      using ts_textD(7,8) [OF t1 m(2)] xe by simp_all
    have dr: "drop m ?line = x # xs @ ?rest" using m x by simp
    have "ws_run (x # xs @ ?rest) = 0" using nsp by (simp add: ws_run_def)
    then show ?thesis
      unfolding dr using nm by (simp add: greedy_0_0)
  qed
  have wsr: "ws_run ?rest = 1"
    by (simp add: ws_run_def is_space_def)
  have "?g (length t1) ?rest 1 = Some (t1, t2, Some ?P)"
    using re_end_field_canonical [OF t2 t] by simp
  then have "greedy 0 (ws_run ?rest) (?g (length t1) ?rest) = Some (t1, t2, Some ?P)"
    unfolding wsr by (rule greedy_top [OF le0])
  moreover have dr1: "drop (length t1) ?line = ?rest"
    by simp
  ultimately have hit: "?f (length t1) = Some (t1, t2, Some ?P)"
    by (simp only:)
  have inner: "lazy 1 (dot_run ?line) ?f = Some (t1, t2, Some ?P)"
  proof (rule lazy_hit [where n = "length t1"])
    show "1 \<le> length t1" using ts_textD(1) [OF t1] by (cases t1) auto
    show "length t1 \<le> dot_run ?line" using ts_textD(4) [OF t1] by (rule dot_run_ge)
    show "\<forall>m. 1 \<le> m \<and> m < length t1 \<longrightarrow> ?f m = None" using none by blast
    show "?f (length t1) = Some (t1, t2, Some ?P)" by (rule hit)
  qed
  show ?thesis
    unfolding TS_LINE_RE_def arrow ws0 greedy_0_0 Let_def drop_0 by (rule inner)
qed

lemma take_within_takeWhile:
  assumes "k \<le> length (takeWhile P xs)"
  shows "\<forall>x\<in>set (take k xs). P x"
proof -
  have "take k xs = take k (takeWhile P xs @ dropWhile P xs)" by simp
  also have "\<dots> = take k (takeWhile P xs)" using assms by (simp del: takeWhile_dropWhile_id)
  finally have "set (take k xs) \<subseteq> set (takeWhile P xs)" by (simp add: set_take_subset)
  then show ?thesis by (auto dest: set_takeWhileD)
qed

lemma re_tail_tail_ok:
  assumes "re_tail r = Some (Some g)"
  shows "tail_ok g"
proof -
  let ?h = "\<lambda>k. let r' = drop k r in
             greedy 0 (dot_run r') (\<lambda>n.
               if at_eol (drop n r') then Some (take (k + n) r) else None)"
  have G: "greedy 1 (ws_run r) ?h = Some g"
  proof (cases "greedy 1 (ws_run r) ?h")
    case None
    with assms show ?thesis by (simp add: re_tail_def split: if_splits)
  next
    case (Some g')
    with assms show ?thesis by (simp add: re_tail_def)
  qed
  from greedy_SomeD [OF G] obtain k where k: "1 \<le> k" "k \<le> ws_run r" "?h k = Some g"
    by blast
  from k(3) have "greedy 0 (dot_run (drop k r)) (\<lambda>n.
               if at_eol (drop n (drop k r)) then Some (take (k + n) r) else None) = Some g"
    by (simp only: Let_def)
  from greedy_SomeD [OF this] obtain n where n: "n \<le> dot_run (drop k r)"
      "(if at_eol (drop n (drop k r)) then Some (take (k + n) r) else None) = Some g"
    by blast
  from n(2) have "g = take (k + n) r"
    by (simp split: if_splits)
  then have g: "g = take k r @ take n (drop k r)"
    by (simp only: take_add)
  have "k \<le> length r"
    using k(2) length_takeWhile_le [of is_space r] by (simp add: ws_run_def)
  then have "take k r \<noteq> []" using k(1) by auto
  moreover have "list_all is_space (take k r)"
    using take_within_takeWhile [of k is_space r] k(2) by (simp add: ws_run_def list_all_iff)
  moreover have "10 \<notin> set (take n (drop k r))"
    using take_within_takeWhile [of n "\<lambda>c. c \<noteq> 10" "drop k r"] n(1) by (auto simp: dot_run_def)
  ultimately show ?thesis unfolding tail_ok_def g by blast
qed

lemma re_end_field_tail_ok:
  assumes "re_end_field r = Some (g2, Some g)"
  shows "tail_ok g"
proof -
  from greedy_SomeD [OF assms [unfolded re_end_field_def]] obtain k where
    "(let r' = drop k r in lazy 1 (dot_run r') (\<lambda>n.
         case re_tail (drop n r') of None \<Rightarrow> None | Some g3 \<Rightarrow> Some (take n r', g3)))
       = Some (g2, Some g)"
    by blast
  then have "lazy 1 (dot_run (drop k r)) (\<lambda>n.
         case re_tail (drop n (drop k r)) of None \<Rightarrow> None
         | Some g3 \<Rightarrow> Some (take n (drop k r), g3)) = Some (g2, Some g)"
    by (simp only: Let_def)
  from lazy_SomeD [OF this] obtain n where
    "(case re_tail (drop n (drop k r)) of None \<Rightarrow> None
      | Some g3 \<Rightarrow> Some (take n (drop k r), g3)) = Some (g2, Some g)"
    by blast
  then have "re_tail (drop n (drop k r)) = Some (Some g)"
    by (cases "re_tail (drop n (drop k r))") simp_all
  then show ?thesis by (rule re_tail_tail_ok)
qed

lemma TS_LINE_RE_tail_ok:
  assumes "TS_LINE_RE line = Some (g1, g2, Some g)"
  shows "tail_ok g"
proof -
  let ?g = "\<lambda>n1 r0 r1 k1.
           if take 3 (drop k1 r1) = ustr ''-->''
           then (case re_end_field (drop 3 (drop k1 r1)) of
                   None \<Rightarrow> None
                 | Some (g2, g3) \<Rightarrow> Some (take n1 r0, g2, g3))
           else None"
  let ?f = "\<lambda>r0 n1. greedy 0 (ws_run (drop n1 r0)) (?g n1 r0 (drop n1 r0))"
  have "greedy 0 (ws_run line) (\<lambda>k0. lazy 1 (dot_run (drop k0 line)) (?f (drop k0 line)))
          = Some (g1, g2, Some g)"
    using assms by (simp only: TS_LINE_RE_def Let_def)
  from greedy_SomeD [OF this] obtain k0 where
    "lazy 1 (dot_run (drop k0 line)) (?f (drop k0 line)) = Some (g1, g2, Some g)"
    by blast
  from lazy_SomeD [OF this] obtain n1 where
    "?f (drop k0 line) n1 = Some (g1, g2, Some g)"
    by blast
  from greedy_SomeD [OF this] obtain k1 where
    k1: "?g n1 (drop k0 line) (drop n1 (drop k0 line)) k1 = Some (g1, g2, Some g)"
    by blast
  define x where "x = drop 3 (drop k1 (drop n1 (drop k0 line)))"
  from k1 have "(case re_end_field x of None \<Rightarrow> None
                 | Some (g2, g3) \<Rightarrow> Some (take n1 (drop k0 line), g2, g3)) = Some (g1, g2, Some g)"
    unfolding x_def by (simp split: if_splits)
  then have "re_end_field x = Some (g2, Some g)"
    by (cases "re_end_field x") auto
  then show ?thesis by (rule re_end_field_tail_ok)
qed

lemma py_rstrip_all_space: "\<forall>c\<in>set s. is_space c \<Longrightarrow> py_rstrip s = []"
  by (simp add: py_rstrip_def dropWhile_eq_Nil_conv)

lemma py_rstrip_fix: "s = [] \<or> \<not> is_space (last s) \<Longrightarrow> py_rstrip s = s"
proof -
  assume "s = [] \<or> \<not> is_space (last s)"
  then have "dropWhile is_space (rev s) = rev s"
    by (auto simp: dropWhile_eq_self_iff hd_rev)
  then show ?thesis by (simp add: py_rstrip_def)
qed

lemma py_rstrip_append:
  "py_rstrip (a @ b) = (if \<forall>c\<in>set b. is_space c then py_rstrip a else a @ py_rstrip b)"
proof (cases "\<forall>c\<in>set b. is_space c")
  case True
  then have "dropWhile is_space (rev b @ rev a) = dropWhile is_space (rev a)"
    by (intro dropWhile_all_append) simp
  then show ?thesis using True by (simp add: py_rstrip_def)
next
  case False
  then obtain x where "x \<in> set (rev b)" "\<not> is_space x" by auto
  then have "dropWhile is_space (rev b @ rev a) = dropWhile is_space (rev b) @ rev a"
    by (rule dropWhile_append1)
  then have "py_rstrip (a @ b) = a @ py_rstrip b"
    by (simp add: py_rstrip_def)
  then show ?thesis using False by (simp only: if_False)
qed

lemma py_rstrip_append_keep:
  "a \<noteq> [] \<Longrightarrow> \<not> is_space (last a) \<Longrightarrow> py_rstrip (a @ b) = a @ py_rstrip b"
  by (simp add: py_rstrip_append py_rstrip_fix py_rstrip_all_space)

lemma py_rstrip_last: "py_rstrip s \<noteq> [] \<Longrightarrow> \<not> is_space (last (py_rstrip s))"
  by (simp add: py_rstrip_def last_rev hd_dropWhile)

lemma set_py_rstrip: "set (py_rstrip s) \<subseteq> set s"
  using set_dropWhileD [of _ is_space "rev s"] by (auto simp: py_rstrip_def)

lemma canon_tail_rstrip:
  assumes "tail_ok g"
  shows "canon_tail (py_rstrip g)"
proof -
  from assms obtain a b where g: "g = a @ b" and a: "a \<noteq> []" "\<forall>c\<in>set a. is_space c"
    and b: "10 \<notin> set b"
    by (auto simp: tail_ok_def list_all_iff)
  show ?thesis
  proof (cases "\<forall>c\<in>set b. is_space c")
    case True
    then have "py_rstrip g = []" unfolding g using a by (intro py_rstrip_all_space) auto
    then show ?thesis by (simp add: canon_tail_def)
  next
    case False
    then have r: "py_rstrip g = a @ py_rstrip b"
      using py_rstrip_append [of a b] by (auto simp: g)
    have ne: "py_rstrip b \<noteq> []"
      using False by (auto simp: py_rstrip_def dropWhile_eq_Nil_conv)
    have "is_space (hd (a @ py_rstrip b))" using a by (cases a) auto
    moreover have "\<not> is_space (last (a @ py_rstrip b))"
      using ne py_rstrip_last [of b] by simp
    moreover have "dropWhile is_space (a @ py_rstrip b) = dropWhile is_space (py_rstrip b)"
      using a(2) by (rule dropWhile_all_append)
    then have "10 \<notin> set (dropWhile is_space (a @ py_rstrip b))"
      using b set_py_rstrip [of b] set_dropWhileD [of 10 is_space "py_rstrip b"] by auto
    ultimately show ?thesis by (simp add: canon_tail_def r)
  qed
qed

lemma canon_tail_Nil: "canon_tail []"
  by (simp add: canon_tail_def)

lemma canon_tail_rstrip_fix: "canon_tail t \<Longrightarrow> py_rstrip (if t = [] then [10] else t) = t"
proof (cases "t = []")
  case True
  then show ?thesis by (simp add: py_rstrip_def is_space_def)
next
  case False
  assume "canon_tail t"
  with False have "\<not> is_space (last t)" by (simp add: canon_tail_def)
  with False show ?thesis by (simp add: py_rstrip_fix)
qed

lemma ascii_digits_ts: "ascii_digits s \<Longrightarrow> list_all (\<lambda>c. \<not> is_space c \<and> c \<noteq> 45) s"
  using ascii_digits_not_space [of s] ascii_digits_notin(4) [of s] by (auto simp: list_all_iff)

lemma not_space_punct: "\<not> is_space 58" "\<not> is_space 46"
  by (simp_all add: is_space_def)

lemma ts_text_parts:
  assumes "0 \<le> h" "0 \<le> mi" "0 \<le> s" "0 \<le> f"
  shows "ts_text (fmt_0d 2 h @ 58 # fmt_0d 2 mi @ 58 # fmt_0d 2 s @ 46 # fmt_0d 3 f)"
proof -
  have "list_all (\<lambda>c. \<not> is_space c \<and> c \<noteq> 45) (fmt_0d w k)" if "0 \<le> k" for w k
    using that by (intro ascii_digits_ts fmt_0d_ascii)
  then show ?thesis
    using assms by (simp add: ts_text_def not_space_punct)
qed

lemma ts_text_ms_to_vtt: "ts_text (ms_to_vtt m)"
proof -
  define n where "n = max 0 m"
  have n: "0 \<le> n" by (simp add: n_def)
  have r: "0 \<le> n mod 3600000" "0 \<le> n mod 3600000 mod 60000" by simp_all
  have d: "0 \<le> n div 3600000" "0 \<le> n mod 3600000 div 60000"
      "0 \<le> n mod 3600000 mod 60000 div 1000" "0 \<le> n mod 3600000 mod 60000 mod 1000"
    using n r by (simp_all add: pos_imp_zdiv_nonneg_iff)
  have "ts_text (ms_to_vtt n)"
    unfolding ms_to_vtt_nonneg [OF n] by (rule ts_text_parts [OF d])
  then have "ts_text (ms_to_vtt (max 0 m))" by (simp only: n_def)
  then show ?thesis by (simp only: ms_to_vtt_clamp [of m, symmetric])
qed

lemma parse_ms_to_vtt: "parse_ts_to_ms (ms_to_vtt m) = Inr (max 0 m)"
proof -
  have "parse_ts_to_ms (ms_to_vtt (max 0 m)) = Inr (max 0 m)"
    by (rule roundtrip_nonneg) simp
  then show ?thesis by (simp only: ms_to_vtt_clamp [of m, symmetric])
qed

lemma split_first_ts_text: "ts_text x \<Longrightarrow> split_first x = Inr x"
proof -
  assume x: "ts_text x"
  have "dropWhile is_space x = x"
    using ts_textD(1,5) [OF x] by (simp add: dropWhile_eq_self_iff)
  moreover have "takeWhile (\<lambda>c. \<not> is_space c) x = x"
    using ts_textD(2) [OF x] by (simp add: takeWhile_eq_all_conv)
  ultimately show ?thesis
    using ts_textD(1) [OF x] by (cases x) (simp_all add: split_first_def)
qed

lemma py_strip_ts_text: "ts_text x \<Longrightarrow> py_strip x = x"
  using ts_textD(1,5,6) [of x] by (simp add: py_strip_id)

text \<open>The fixer and the decoder on a line in canonical form.\<close>

lemma canonical_line:
  assumes se: "s \<le> e" and t: "canon_tail t"
  defines "l \<equiv> ms_to_vtt s @ ustr '' --> '' @ ms_to_vtt e @ t @ [10]"
  shows "fix_line j l = Inr (l, [])" and "line_times l = Some (max 0 s, max 0 e)"
proof -
  let ?P = "if t = [] then [10] else t"
  have m: "TS_LINE_RE l = Some (ms_to_vtt s, ms_to_vtt e, Some ?P)"
    unfolding l_def by (rule TS_LINE_RE_canonical [OF ts_text_ms_to_vtt ts_text_ms_to_vtt t])
  have st: "py_strip (ms_to_vtt s) = ms_to_vtt s" "py_strip (ms_to_vtt e) = ms_to_vtt e"
    by (simp_all add: py_strip_ts_text ts_text_ms_to_vtt)
  have sf: "split_first (ms_to_vtt e) = Inr (ms_to_vtt e)"
    by (simp add: split_first_ts_text ts_text_ms_to_vtt)
  define s' e' where "s' = max 0 s" and "e' = max 0 e"
  have pb: "parse_both (ms_to_vtt s) (ms_to_vtt e) = Inr (s', e')"
    by (simp add: parse_both_def parse_ms_to_vtt s'_def e'_def)
  have nsw: "(e' < s') = False" using se by (simp add: s'_def e'_def)
  have enc: "ms_to_vtt s' = ms_to_vtt s" "ms_to_vtt e' = ms_to_vtt e"
    unfolding s'_def e'_def by (simp_all only: ms_to_vtt_clamp [symmetric])
  let ?T = "ms_to_vtt s @ ustr '' --> '' @ ms_to_vtt e"
  have "last ?T = last (ms_to_vtt e)"
    using ts_textD(1) [OF ts_text_ms_to_vtt [of e]] by simp
  then have "\<not> is_space (last ?T)" "?T \<noteq> []"
    using ts_textD(1,6) [OF ts_text_ms_to_vtt [of e]] by simp_all
  then have "py_rstrip (?T @ ?P) = ?T @ py_rstrip ?P"
    by (intro py_rstrip_append_keep)
  then have nl: "py_rstrip (ms_to_vtt s @ ustr '' --> '' @ ms_to_vtt e @ ?P) @ [10] = l"
    unfolding canon_tail_rstrip_fix [OF t] l_def by simp
  show "line_times l = Some (max 0 s, max 0 e)"
    by (simp add: line_times_def m st sf pb) (simp add: s'_def e'_def)
  show "fix_line j l = Inr (l, [])"
    unfolding fix_line_def m
    by (simp only: st sf pb nsw enc nl Let_def prod.case option.case sum.case if_False simp_thms)
qed

text \<open>What one iteration of the fixer returns, by the cases of its line.\<close>

lemma fix_line_result:
  assumes "fix_line i line = Inr (l', ents)"
  shows "(line_times line = None \<and> l' = line \<and> (\<forall>x\<in>set ents. fst (snd x) = SKIP_UNPARSEABLE)) \<or>
         (\<exists>s e t. line_times line = Some (s, e) \<and> canon_tail t \<and>
            l' = ms_to_vtt (min s e) @ ustr '' --> '' @ ms_to_vtt (max s e) @ t @ [10])"
proof (cases "TS_LINE_RE line")
  case None
  with assms show ?thesis by (simp add: fix_line_def line_times_def)
next
  case (Some g)
  obtain g1 g2 g3 where g: "g = (g1, g2, g3)" by (cases g)
  note m = Some [unfolded g]
  show ?thesis
  proof (cases "split_first (py_strip g2)")
    case (Inl err)
    with assms m show ?thesis by (simp add: fix_line_def)
  next
    case (Inr end_raw)
    note sf = this
    show ?thesis
    proof (cases "parse_both (py_strip g1) end_raw")
      case (Inl err)
      with assms m sf show ?thesis by (auto simp: fix_line_def line_times_def)
    next
      case (Inr se)
      obtain s0 e0 where se: "se = (s0, e0)" by (cases se)
      note pb = Inr [unfolded se]
      define tail where "tail = (case g3 of None \<Rightarrow> [] | Some t \<Rightarrow> t)"
      have mm: "(if e0 < s0 then e0 else s0) = min s0 e0" "(if e0 < s0 then s0 else e0) = max s0 e0"
        by auto
      have ct: "canon_tail (py_rstrip tail)"
      proof (cases g3)
        case None
        then show ?thesis by (simp add: tail_def py_rstrip_def canon_tail_Nil)
      next
        case (Some t)
        with m have "tail_ok t" using TS_LINE_RE_tail_ok by blast
        then show ?thesis using Some by (simp add: tail_def canon_tail_rstrip)
      qed
      let ?T = "ms_to_vtt (min s0 e0) @ ustr '' --> '' @ ms_to_vtt (max s0 e0)"
      have "last ?T = last (ms_to_vtt (max s0 e0))"
        using ts_textD(1) [OF ts_text_ms_to_vtt [of "max s0 e0"]] by simp
      then have "\<not> is_space (last ?T)" "?T \<noteq> []"
        using ts_textD(1,6) [OF ts_text_ms_to_vtt [of "max s0 e0"]] by simp_all
      then have "py_rstrip (?T @ tail) = ?T @ py_rstrip tail"
        by (intro py_rstrip_append_keep)
      then have nl: "py_rstrip (ms_to_vtt (min s0 e0) @ ustr '' --> '' @ ms_to_vtt (max s0 e0) @ tail)
              = ms_to_vtt (min s0 e0) @ ustr '' --> '' @ ms_to_vtt (max s0 e0) @ py_rstrip tail"
        by simp
      have "fix_line i line = Inr (py_rstrip (ms_to_vtt (min s0 e0) @ ustr '' --> '' @
                ms_to_vtt (max s0 e0) @ tail) @ [10],
              if e0 < s0 then [(i, SWAP_START_END, Fields (py_strip g1) end_raw)]
              else if py_strip line \<noteq> py_strip (py_rstrip (ms_to_vtt (min s0 e0) @
                        ustr '' --> '' @ ms_to_vtt (max s0 e0) @ tail) @ [10])
                   then [(i, NORMALIZE, Fields (py_strip g1) end_raw)] else [])"
        unfolding fix_line_def m
        by (simp only: sf pb mm tail_def [symmetric] Let_def prod.case option.case sum.case)
      with assms have "l' = ms_to_vtt (min s0 e0) @ ustr '' --> '' @ ms_to_vtt (max s0 e0) @
                            py_rstrip tail @ [10]"
        unfolding nl by simp
      moreover have "line_times line = Some (s0, e0)"
        by (simp add: line_times_def m sf pb)
      ultimately show ?thesis using ct by blast
    qed
  qed
qed

lemma fix_line_unchanged_again:
  assumes "fix_line i line = Inr (line, ents)" "line_times line = None"
  shows "\<exists>ents'. fix_line j line = Inr (line, ents') \<and>
           (\<forall>x\<in>set ents'. fst (snd x) = SKIP_UNPARSEABLE)"
proof (cases "TS_LINE_RE line")
  case None
  then show ?thesis by (simp add: fix_line_def)
next
  case (Some g)
  obtain g1 g2 g3 where g: "g = (g1, g2, g3)" by (cases g)
  note m = Some [unfolded g]
  show ?thesis
  proof (cases "split_first (py_strip g2)")
    case (Inl err)
    with assms m show ?thesis by (simp add: fix_line_def)
  next
    case (Inr end_raw)
    note sf = this
    show ?thesis
    proof (cases "parse_both (py_strip g1) end_raw")
      case (Inl err)
      with m sf show ?thesis by (simp add: fix_line_def)
    next
      case (Inr se)
      with assms(2) m sf show ?thesis by (simp add: line_times_def)
    qed
  qed
qed

lemma fix_line_second:
  assumes "fix_line i line = Inr (l', ents)"
  shows "\<exists>ents'. fix_line j l' = Inr (l', ents') \<and>
           (\<forall>x\<in>set ents'. fst (snd x) = SKIP_UNPARSEABLE)"
  using fix_line_result [OF assms]
proof (elim disjE exE conjE)
  assume "line_times line = None" "l' = line"
  with assms show ?thesis using fix_line_unchanged_again [of i line ents j] by simp
next
  fix s e t
  assume "canon_tail t" "l' = ms_to_vtt (min s e) @ ustr '' --> '' @ ms_to_vtt (max s e) @ t @ [10]"
  then show ?thesis using canonical_line(1) [of "min s e" "max s e" t j] by simp
qed

lemma fix_loop_second:
  "fix_loop i ls = Inr (fixed, lg) \<Longrightarrow>
   \<exists>lg2. fix_loop j fixed = Inr (fixed, lg2) \<and> (\<forall>x\<in>set lg2. fst (snd x) = SKIP_UNPARSEABLE)"
proof (induction ls arbitrary: i j fixed lg)
  case Nil
  then show ?case by simp
next
  case (Cons line rest)
  from Cons.prems obtain l' ents fx lg' where
    a: "fix_line i line = Inr (l', ents)" and b: "fix_loop (Suc i) rest = Inr (fx, lg')"
    and c: "fixed = l' # fx"
    by (auto split: sum.splits prod.splits)
  from fix_line_second [OF a, of j] obtain ents' where
    a': "fix_line j l' = Inr (l', ents')" "\<forall>x\<in>set ents'. fst (snd x) = SKIP_UNPARSEABLE"
    by blast
  from Cons.IH [OF b, of "Suc j"] obtain lg2 where
    b': "fix_loop (Suc j) fx = Inr (fx, lg2)" "\<forall>x\<in>set lg2. fst (snd x) = SKIP_UNPARSEABLE"
    by blast
  show ?case using a' b' by (auto simp: c)
qed

lemma fix_loop_times:
  "fix_loop i ls = Inr (fixed, lg) \<Longrightarrow>
   list_all2 (\<lambda>line l'. (line_times line = None \<longrightarrow> l' = line) \<and>
       (\<forall>s e. line_times line = Some (s, e) \<longrightarrow>
              line_times l' = Some (max 0 (min s e), max 0 (max s e)))) ls fixed"
proof (induction ls arbitrary: i fixed lg)
  case Nil
  then show ?case by simp
next
  case (Cons line rest)
  from Cons.prems obtain l' ents fx lg' where
    a: "fix_line i line = Inr (l', ents)" and b: "fix_loop (Suc i) rest = Inr (fx, lg')"
    and c: "fixed = l' # fx"
    by (auto split: sum.splits prod.splits)
  have "(line_times line = None \<longrightarrow> l' = line) \<and>
       (\<forall>s e. line_times line = Some (s, e) \<longrightarrow>
              line_times l' = Some (max 0 (min s e), max 0 (max s e)))"
    using fix_line_result [OF a]
  proof (elim disjE exE conjE)
    assume "line_times line = None" "l' = line"
    then show ?thesis by simp
  next
    fix s e t
    assume "line_times line = Some (s, e)" "canon_tail t"
      "l' = ms_to_vtt (min s e) @ ustr '' --> '' @ ms_to_vtt (max s e) @ t @ [10]"
    then show ?thesis using canonical_line(2) [of "min s e" "max s e" t] by simp
  qed
  then show ?case using Cons.IH [OF b] by (simp add: c)
qed

text \<open>
  Claim C6: running the fixer on its own output logs no \<open>SWAP_START_END\<close> and no \<open>NORMALIZE\<close>
  entry. The second run returns the same lines, and whatever it logs is a
  \<open>SKIP_UNPARSEABLE\<close> entry for a line the first run passed through.
\<close>

theorem fixer_fixed_point:
  assumes "fix_vtt_timestamps lines = Inr (fixed_lines, fix_log)"
  shows "\<exists>log2. fix_vtt_timestamps fixed_lines = Inr (fixed_lines, log2) \<and>
           (\<forall>(line_no, act, det) \<in> set log2. act \<noteq> SWAP_START_END \<and> act \<noteq> NORMALIZE)"
proof -
  from fix_loop_second [OF assms [unfolded fix_vtt_timestamps_def], of 1] obtain log2 where
    "fix_loop 1 fixed_lines = Inr (fixed_lines, log2)"
    "\<forall>x\<in>set log2. fst (snd x) = SKIP_UNPARSEABLE"
    by blast
  then show ?thesis
    unfolding fix_vtt_timestamps_def by (intro exI [of _ log2]) auto
qed

theorem fixer_fixed_point_witness:
  "fix_vtt_timestamps [ustr ''05:00.000 --> 02:00.000 align:start'' @ [10], ustr ''Hello'' @ [10],
                       ustr ''46.550 --> 47'' @ [10], ustr ''foo --> bar'' @ [10]] =
     Inr ([ustr ''00:02:00.000 --> 00:05:00.000 align:start'' @ [10], ustr ''Hello'' @ [10],
           ustr ''00:00:46.550 --> 00:00:47.000'' @ [10], ustr ''foo --> bar'' @ [10]],
          [(1, SWAP_START_END, Fields (ustr ''05:00.000'') (ustr ''02:00.000'')),
           (3, NORMALIZE, Fields (ustr ''46.550'') (ustr ''47'')),
           (4, SKIP_UNPARSEABLE, Raised ValueError)]) \<and>
   (\<exists>log2. fix_vtt_timestamps
             [ustr ''00:02:00.000 --> 00:05:00.000 align:start'' @ [10], ustr ''Hello'' @ [10],
              ustr ''00:00:46.550 --> 00:00:47.000'' @ [10], ustr ''foo --> bar'' @ [10]] =
           Inr ([ustr ''00:02:00.000 --> 00:05:00.000 align:start'' @ [10], ustr ''Hello'' @ [10],
                 ustr ''00:00:46.550 --> 00:00:47.000'' @ [10], ustr ''foo --> bar'' @ [10]], log2) \<and>
           (\<forall>(line_no, act, det) \<in> set log2. act \<noteq> SWAP_START_END \<and> act \<noteq> NORMALIZE))"
proof -
  have "fix_vtt_timestamps [ustr ''05:00.000 --> 02:00.000 align:start'' @ [10], ustr ''Hello'' @ [10],
                       ustr ''46.550 --> 47'' @ [10], ustr ''foo --> bar'' @ [10]] =
     Inr ([ustr ''00:02:00.000 --> 00:05:00.000 align:start'' @ [10], ustr ''Hello'' @ [10],
           ustr ''00:00:46.550 --> 00:00:47.000'' @ [10], ustr ''foo --> bar'' @ [10]],
          [(1, SWAP_START_END, Fields (ustr ''05:00.000'') (ustr ''02:00.000'')),
           (3, NORMALIZE, Fields (ustr ''46.550'') (ustr ''47'')),
           (4, SKIP_UNPARSEABLE, Raised ValueError)])"
    by (simp add: fix_vtt_timestamps_def fix_line_def ev_hdr ev_re ev_str ev_num ev_parse ev_float
          ev_enc replicate_23 Let_def)
  from this fixer_fixed_point [OF this] show ?thesis by (rule conjI)
qed

section \<open>Properties of the cue compressor\<close>

text \<open>
  The cleaning and the sentence test of the program agree with the notions of the
  specification.
\<close>

lemma spec_trim_py_strip: "spec_trim s = py_strip s"
  by (simp add: spec_trim_def py_strip_def py_rstrip_def py_lstrip_def)

lemma remove_tags_no_close: "62 \<notin> set s \<Longrightarrow> remove_tags s = s"
proof (induction s)
  case Nil
  show ?case by simp
next
  case (Cons c cs)
  from Cons.prems have "dropWhile (\<lambda>x. x \<noteq> 62) cs = []" by auto
  with Cons show ?case by simp
qed

lemma spec_untag_no_close: "62 \<notin> set cs \<Longrightarrow> spec_untag (Some b) cs = 60 # b @ cs"
  by (induction cs arbitrary: b) simp_all

lemma spec_untag_close:
  "62 \<notin> set pre \<Longrightarrow>
   spec_untag (Some b) (pre @ 62 # post) =
     (if b @ pre = [] then 60 # 62 # spec_untag None post else spec_untag None post)"
  by (induction pre arbitrary: b) simp_all

lemma spec_untag_remove_tags: "spec_untag None s = remove_tags s"
proof (induction s rule: length_induct)
  case (1 s)
  show ?case
  proof (cases s)
    case Nil
    then show ?thesis by simp
  next
    case (Cons c cs)
    have IH: "length t < length s \<Longrightarrow> spec_untag None t = remove_tags t" for t
      using 1 by blast
    show ?thesis
    proof (cases "c = 60")
      case False
      then show ?thesis using IH [of cs] by (simp add: Cons)
    next
      case lt: True
      define pre where "pre = takeWhile (\<lambda>x. x \<noteq> 62) cs"
      define d where "d = dropWhile (\<lambda>x. x \<noteq> 62) cs"
      have pd: "cs = pre @ d" by (simp add: pre_def d_def)
      have np: "62 \<notin> set pre"
        unfolding pre_def by (auto dest: set_takeWhileD)
      show ?thesis
      proof (cases d)
        case Nil
        then have "62 \<notin> set cs" using np pd by simp
        then show ?thesis
          using lt Nil by (simp add: Cons spec_untag_no_close remove_tags_no_close d_def)
      next
        case (Cons x post)
        have "dropWhile (\<lambda>x. x \<noteq> 62) cs \<noteq> []"
          using Cons by (simp add: d_def)
        from hd_dropWhile [OF this] have "x = 62"
          using Cons by (simp add: d_def)
        then have cs: "cs = pre @ 62 # post" using pd Cons by simp
        have len: "length post < length s" by (simp add: \<open>s = c # cs\<close> cs)
        have u: "spec_untag None s =
                   (if pre = [] then 60 # 62 # spec_untag None post else spec_untag None post)"
          using spec_untag_close [OF np, of "[]" post] lt by (simp add: \<open>s = c # cs\<close> cs)
        have tw: "takeWhile (\<lambda>x. x \<noteq> 62) (pre @ 62 # post) = pre"
          "dropWhile (\<lambda>x. x \<noteq> 62) (pre @ 62 # post) = 62 # post"
          using np by (auto intro!: takeWhile_stop dropWhile_stop)
        have r: "remove_tags s =
                   (if pre = [] then 60 # 62 # remove_tags post else remove_tags post)"
        proof (cases "pre = []")
          case True
          then show ?thesis using lt by (simp add: \<open>s = c # cs\<close> cs)
        next
          case False
          then show ?thesis using lt tw by (simp add: \<open>s = c # cs\<close> cs del: takeWhile_append dropWhile_append)
        qed
        show ?thesis unfolding u r using IH [OF len] by simp
      qed
    qed
  qed
qed

lemma spec_collapse_collapse_ws:
  "spec_collapse False s = collapse_ws s \<and>
   spec_collapse True s = collapse_ws (dropWhile is_space s)"
  by (induction s) simp_all

lemma clean_text_spec: "clean_text s = spec_clean s"
  by (simp add: clean_text_def spec_clean_def spec_trim_py_strip spec_untag_remove_tags
        spec_collapse_collapse_ws)

lemma ends_sentence_spec: "ends_sentence s = spec_terminal s"
  by (simp add: ends_sentence_def spec_terminal_def clean_text_spec PUNCT_END_def
        spec_terminal_marks_def Let_def)

lemma merge_adjacent_spec_fold:
  "merge_adjacent g m (cue_enrich c) merged (map cue_enrich cs)
     = merged @ map cue_render (spec_fold g m c cs)"
proof (induction cs arbitrary: c merged)
  case Nil
  then show ?case by (cases c) (simp add: cue_enrich_def cue_render_def)
next
  case (Cons n cs)
  obtain s e t where c: "c = (s, e, t)" by (cases c)
  obtain s' e' t' where n: "n = (s', e', t')" by (cases n)
  show ?case
  proof (cases "spec_fuse g m c n")
    case True
    let ?c' = "(s, max e e', spec_clean (t @ [32] @ t'))"
    have "merge_adjacent g m (cue_enrich c) merged (map cue_enrich (n # cs))
            = merge_adjacent g m (cue_enrich ?c') merged (map cue_enrich cs)"
      using True
      by (simp add: c n cue_enrich_def spec_fuse_def ends_sentence_spec clean_text_spec)
    also have "\<dots> = merged @ map cue_render (spec_fold g m ?c' cs)"
      by (rule Cons.IH)
    finally show ?thesis using True by (simp add: c n)
  next
    case False
    have "merge_adjacent g m (cue_enrich c) merged (map cue_enrich (n # cs))
            = merge_adjacent g m (cue_enrich n) (merged @ [cue_render c]) (map cue_enrich cs)"
      using False
      by (auto simp: c n cue_enrich_def cue_render_def spec_fuse_def ends_sentence_spec)
    also have "\<dots> = (merged @ [cue_render c]) @ map cue_render (spec_fold g m n cs)"
      by (rule Cons.IH)
    finally show ?thesis using False by simp
  qed
qed

lemma compress_parse_enriched:
  "compress_parse ls = Inr cues \<Longrightarrow> map cue_enrich (map cue_core cues) = cues"
proof (induction ls arbitrary: cues rule: compress_parse.induct)
  case 1
  then show ?case by simp
next
  case (2 l rest)
  show ?case
  proof (cases "py_strip l = []")
    case True
    with 2 show ?thesis by simp
  next
    case ne: False
    show ?thesis
    proof (cases "TS_LINE_RE l")
      case None
      with 2 ne show ?thesis by simp
    next
      case (Some g)
      obtain g1 g2 g3 where g: "g = (g1, g2, g3)" by (cases g)
      note m = Some [unfolded g]
      from "2.prems" ne m obtain end_raw where sf: "split_first (py_strip g2) = Inr end_raw"
        by (cases "split_first (py_strip g2)") auto
      from "2.prems" ne m sf obtain s_ms where ps: "parse_ts_to_ms (py_strip g1) = Inr s_ms"
        by (cases "parse_ts_to_ms (py_strip g1)") auto
      from "2.prems" ne m sf ps obtain e_ms where pe: "parse_ts_to_ms end_raw = Inr e_ms"
        by (cases "parse_ts_to_ms end_raw") auto
      let ?rest2 = "dropWhile blank (dropWhile (\<lambda>l. \<not> blank l) rest)"
      from "2.prems" ne m sf ps pe obtain cs where
        r: "compress_parse ?rest2 = Inr cs" and
        c: "cues = (s_ms, e_ms, ms_to_vtt s_ms, ms_to_vtt e_ms,
                    clean_text (join [32] (map py_strip (takeWhile (\<lambda>l. \<not> blank l) rest)))) # cs"
        by (cases "compress_parse ?rest2") (auto simp: Let_def)
      have "map cue_enrich (map cue_core cs) = cs"
        using "2.IH"(3) [OF ne m refl refl sf ps pe refl refl refl refl r] .
      moreover have "cue_enrich (cue_core (s_ms, e_ms, ms_to_vtt s_ms, ms_to_vtt e_ms, x))
                       = (s_ms, e_ms, ms_to_vtt s_ms, ms_to_vtt e_ms, x)" for x
        by (simp add: cue_enrich_def cue_core_def)
      ultimately show ?thesis unfolding c by simp
    qed
  qed
qed

lemma spec_fold_ordered:
  "fst c \<le> fst (snd c) \<Longrightarrow> \<forall>x\<in>set cs. fst x \<le> fst (snd x) \<Longrightarrow>
   \<forall>x\<in>set (spec_fold g m c cs). fst x \<le> fst (snd x)"
proof (induction cs arbitrary: c)
  case Nil
  then show ?case by simp
next
  case (Cons n cs)
  have n: "fst n \<le> fst (snd n)" and cs: "\<forall>x\<in>set cs. fst x \<le> fst (snd x)"
    using Cons.prems(2) by simp_all
  show ?case
  proof (cases "spec_fuse g m c n")
    case True
    have "fst c \<le> max (fst (snd c)) (fst (snd n))" using Cons.prems(1) by simp
    then have "\<forall>x\<in>set (spec_fold g m (fst c, max (fst (snd c)) (fst (snd n)),
                  spec_clean (snd (snd c) @ [32] @ snd (snd n))) cs). fst x \<le> fst (snd x)"
      by (intro Cons.IH cs) simp
    then show ?thesis using True by simp
  next
    case False
    then show ?thesis using Cons.IH [OF n cs] Cons.prems(1) by simp
  qed
qed

lemma cue_render_ordered: "fst c \<le> fst (snd c) \<Longrightarrow> cue_ordered (cue_render c)"
  by (cases c) (simp add: cue_ordered_def cue_render_def parse_ms_to_vtt)

lemma sort_key_hd_tl: "xs \<noteq> [] \<Longrightarrow> sort_key f xs = hd (sort_key f xs) # tl (sort_key f xs)"
  by (cases "sort_key f xs") (auto dest: arg_cong [where f = length])

text \<open>The merged cues of a run of the compressor, in terms of the fold of the specification.\<close>

lemma cmd_compress_merged:
  assumes "cmd_compress content g m = Inr (merged, out)"
  shows "\<exists>cues. compress_input content = Inr cues \<and> cues \<noteq> [] \<and>
           merged = map cue_render
                      (spec_compress g m (map cue_core (sort_key (\<lambda>(s, e, x). (s, e)) cues)))"
proof -
  let ?k = "\<lambda>(s :: int, e :: int, x :: ustring \<times> ustring \<times> ustring). (s, e)"
  from assms obtain cues where p: "compress_input content = Inr cues" and ne: "cues \<noteq> []"
    and mg: "merged = merge_adjacent g m (hd (sort_key ?k cues)) [] (tl (sort_key ?k cues))"
    by (auto simp: cmd_compress_def compress_input_def Let_def split: sum.splits if_splits)
  define sc where "sc = sort_key ?k cues"
  have "map cue_enrich (map cue_core cues) = cues"
    using p compress_parse_enriched by (simp add: compress_input_def)
  then have "map (\<lambda>c. cue_enrich (cue_core c)) cues = map (\<lambda>c. c) cues"
    by (simp add: comp_def)
  then have fx: "\<forall>c\<in>set cues. cue_enrich (cue_core c) = c"
    unfolding map_eq_conv .
  have "set sc = set cues" by (simp add: sc_def)
  with fx have "map (\<lambda>c. cue_enrich (cue_core c)) sc = map (\<lambda>c. c) sc"
    unfolding map_eq_conv by simp
  then have en: "map cue_enrich (map cue_core sc) = sc"
    by (simp add: comp_def)
  obtain c cs where sc: "sc = c # cs"
    using ne by (cases sc) (auto simp: sc_def dest: arg_cong [where f = length])
  have e: "cue_enrich (cue_core c) = c" "map cue_enrich (map cue_core cs) = cs"
    using en by (simp_all add: sc)
  have "merged = merge_adjacent g m c [] cs"
    using mg by (simp add: sc_def [symmetric] sc)
  also have "\<dots> = merge_adjacent g m (cue_enrich (cue_core c)) []
                       (map cue_enrich (map cue_core cs))"
    by (simp only: e)
  also have "merge_adjacent g m (cue_enrich (cue_core c)) [] (map cue_enrich (map cue_core cs))
               = map cue_render (spec_fold g m (cue_core c) (map cue_core cs))"
    using merge_adjacent_spec_fold [of g m "cue_core c" "[]" "map cue_core cs"] by simp
  finally have "merged = map cue_render (spec_compress g m (map cue_core sc))"
    by (simp add: sc)
  then show ?thesis using p ne by (auto simp: sc_def)
qed

lemmas ev_cmp = cmd_compress_def compress_input_def compress_skip_header_def clean_text_def
  ends_sentence_def PUNCT_END_def

lemmas ev_spec = spec_fuse_def spec_fuse_stated_def spec_terminal_def spec_terminal_marks_def
  spec_clean_def spec_trim_def

text \<open>Runs of the compressor on three small documents.\<close>

lemma ex_in: "compress_input (ustr ''WEBVTT'' @ [10, 10] @
      ustr ''00:00:00.000 --> 00:00:01.000'' @ [10] @ ustr ''Hello'' @ [10, 10] @
      ustr ''00:00:01.100 --> 00:00:02.000'' @ [10] @ ustr ''world.'' @ [10, 10] @
      ustr ''00:00:02.000 --> 00:00:03.000'' @ [10] @ ustr ''Next'' @ [10]) =
    Inr [(0, 1000, ustr ''00:00:00.000'', ustr ''00:00:01.000'', ustr ''Hello''),
         (1100, 2000, ustr ''00:00:01.100'', ustr ''00:00:02.000'', ustr ''world.''),
         (2000, 3000, ustr ''00:00:02.000'', ustr ''00:00:03.000'', ustr ''Next'')]"
  by (simp add: ev_cmp ev_hdr ev_re ev_str ev_num ev_parse ev_enc Let_def)

lemma ex_out: "cmd_compress (ustr ''WEBVTT'' @ [10, 10] @
      ustr ''00:00:00.000 --> 00:00:01.000'' @ [10] @ ustr ''Hello'' @ [10, 10] @
      ustr ''00:00:01.100 --> 00:00:02.000'' @ [10] @ ustr ''world.'' @ [10, 10] @
      ustr ''00:00:02.000 --> 00:00:03.000'' @ [10] @ ustr ''Next'' @ [10]) 500 130 =
    Inr ([(ustr ''00:00:00.000'', ustr ''00:00:02.000'', ustr ''Hello world.''),
          (ustr ''00:00:02.000'', ustr ''00:00:03.000'', ustr ''Next'')],
         ustr ''WEBVTT'' @ [10, 10] @ ustr ''00:00:00.000 --> 00:00:02.000'' @ [10] @
         ustr ''Hello world.'' @ [10, 10] @ ustr ''00:00:02.000 --> 00:00:03.000'' @ [10] @
         ustr ''Next'' @ [10])"
  by (simp add: ev_cmp ev_hdr ev_re ev_str ev_num ev_parse ev_enc Let_def)

lemma ex_rev: "cmd_compress (ustr ''WEBVTT'' @ [10, 10] @
      ustr ''00:00:05.000 --> 00:00:02.000'' @ [10] @ ustr ''Hi'' @ [10]) 500 130 =
    Inr ([(ustr ''00:00:05.000'', ustr ''00:00:02.000'', ustr ''Hi'')],
         ustr ''WEBVTT'' @ [10, 10] @ ustr ''00:00:05.000 --> 00:00:02.000'' @ [10] @
         ustr ''Hi'' @ [10])"
  by (simp add: ev_cmp ev_hdr ev_re ev_str ev_num ev_parse ev_enc Let_def)

lemma ex_ord: "\<not> cue_ordered (ustr ''00:00:05.000'', ustr ''00:00:02.000'', ustr ''Hi'')"
  by (simp add: cue_ordered_def ev_str ev_num ev_parse Let_def)

lemma ex_spec: "spec_compress 500 130 [(0, 1000, ustr ''Hello''), (1100, 2000, ustr ''world.''),
      (2000, 3000, ustr ''Next'')] = [(0, 2000, ustr ''Hello world.''), (2000, 3000, ustr ''Next'')]"
  by (simp add: ev_spec ev_str Let_def)

lemma spec_compress_ordered:
  assumes "\<forall>x\<in>set cs. fst x \<le> fst (snd x)"
  shows "\<forall>x\<in>set (spec_compress g m cs). fst x \<le> fst (snd x)"
proof (cases cs)
  case Nil
  then show ?thesis by simp
next
  case (Cons c cs')
  with assms show ?thesis using spec_fold_ordered [of c cs' g m] by simp
qed

lemma cue_core_ordered: "fst c \<le> fst (snd c) \<Longrightarrow> fst (cue_core c) \<le> fst (snd (cue_core c))"
  by (cases c) (simp add: cue_core_def)

text \<open>Runs of the compressor that exercise the marks, the cleaning and the length.\<close>

lemma ex_marks_in: "compress_input (ustr ''WEBVTT'' @ [10, 10] @
      ustr ''00:00:00.000 --> 00:00:01.000'' @ [10] @ ustr ''<i>Hello </i>'' @ [10, 10] @
      ustr ''00:00:01.100 --> 00:00:02.000'' @ [10] @ ustr ''world'' @ [12290, 10, 10] @
      ustr ''00:00:02.000 --> 00:00:03.000'' @ [10, 10] @
      ustr ''00:00:03.000 --> 00:00:04.000'' @ [10] @ ustr ''Next'' @ [10]) =
    Inr [(0, 1000, ustr ''00:00:00.000'', ustr ''00:00:01.000'', ustr ''Hello ''),
         (1100, 2000, ustr ''00:00:01.100'', ustr ''00:00:02.000'', ustr ''world'' @ [12290]),
         (2000, 3000, ustr ''00:00:02.000'', ustr ''00:00:03.000'', []),
         (3000, 4000, ustr ''00:00:03.000'', ustr ''00:00:04.000'', ustr ''Next'')]"
  by (simp add: ev_cmp ev_hdr ev_re ev_str ev_num ev_parse ev_enc Let_def)

lemma ex_marks_out: "cmd_compress (ustr ''WEBVTT'' @ [10, 10] @
      ustr ''00:00:00.000 --> 00:00:01.000'' @ [10] @ ustr ''<i>Hello </i>'' @ [10, 10] @
      ustr ''00:00:01.100 --> 00:00:02.000'' @ [10] @ ustr ''world'' @ [12290, 10, 10] @
      ustr ''00:00:02.000 --> 00:00:03.000'' @ [10, 10] @
      ustr ''00:00:03.000 --> 00:00:04.000'' @ [10] @ ustr ''Next'' @ [10]) 500 130 =
    Inr ([(ustr ''00:00:00.000'', ustr ''00:00:02.000'', ustr ''Hello world'' @ [12290]),
          (ustr ''00:00:02.000'', ustr ''00:00:03.000'', []),
          (ustr ''00:00:03.000'', ustr ''00:00:04.000'', ustr ''Next'')],
         ustr ''WEBVTT'' @ [10, 10] @ ustr ''00:00:00.000 --> 00:00:02.000'' @ [10] @
         ustr ''Hello world'' @ [12290, 10, 10] @
         ustr ''00:00:02.000 --> 00:00:03.000'' @ [10, 10, 10] @
         ustr ''00:00:03.000 --> 00:00:04.000'' @ [10] @ ustr ''Next'' @ [10])"
  by (simp add: ev_cmp ev_hdr ev_re ev_str ev_num ev_parse ev_enc Let_def)

lemma ex_marks_spec:
  "spec_compress 500 130 [(0, 1000, ustr ''Hello ''), (1100, 2000, ustr ''world'' @ [12290]),
      (2000, 3000, []), (3000, 4000, ustr ''Next'')] =
   [(0, 2000, ustr ''Hello world'' @ [12290]), (2000, 3000, []), (3000, 4000, ustr ''Next'')]"
  by (simp add: ev_spec ev_str Let_def)

lemma ex_marks_rule:
  "spec_fuse 500 130 (0, 1000, ustr ''Hello '') (1100, 2000, ustr ''world'' @ [12290])"
  "spec_clean (ustr ''Hello '' @ [32] @ ustr ''world'' @ [12290]) = ustr ''Hello world'' @ [12290]"
  "spec_terminal (ustr ''Hello world'' @ [12290])"
  "\<not> spec_fuse 500 130 (0, 2000, ustr ''Hello world'' @ [12290]) (2000, 3000, [])"
  "spec_terminal []"
  "\<not> spec_fuse 500 130 (2000, 3000, []) (3000, 4000, ustr ''Next'')"
  by (simp_all add: ev_spec ev_str Let_def)

lemma ex_long_in: "compress_input (ustr ''WEBVTT'' @ [10, 10] @
      ustr ''00:00:00.000 --> 00:00:01.000'' @ [10] @ ustr ''<i>Hello </i>'' @ [10, 10] @
      ustr ''00:00:01.100 --> 00:00:02.000'' @ [10] @ ustr ''there'' @ [10]) =
    Inr [(0, 1000, ustr ''00:00:00.000'', ustr ''00:00:01.000'', ustr ''Hello ''),
         (1100, 2000, ustr ''00:00:01.100'', ustr ''00:00:02.000'', ustr ''there'')]"
  by (simp add: ev_cmp ev_hdr ev_re ev_str ev_num ev_parse ev_enc Let_def)

lemma ex_long_out: "cmd_compress (ustr ''WEBVTT'' @ [10, 10] @
      ustr ''00:00:00.000 --> 00:00:01.000'' @ [10] @ ustr ''<i>Hello </i>'' @ [10, 10] @
      ustr ''00:00:01.100 --> 00:00:02.000'' @ [10] @ ustr ''there'' @ [10]) 500 11 =
    Inr ([(ustr ''00:00:00.000'', ustr ''00:00:01.000'', ustr ''Hello ''),
          (ustr ''00:00:01.100'', ustr ''00:00:02.000'', ustr ''there'')],
         ustr ''WEBVTT'' @ [10, 10] @ ustr ''00:00:00.000 --> 00:00:01.000'' @ [10] @
         ustr ''Hello '' @ [10, 10] @ ustr ''00:00:01.100 --> 00:00:02.000'' @ [10] @
         ustr ''there'' @ [10])"
  by (simp add: ev_cmp ev_hdr ev_re ev_str ev_num ev_parse ev_enc Let_def)

lemma ex_long_stated:
  "spec_fuse_stated 500 11 (0, 1000, ustr ''Hello '') (1100, 2000, ustr ''there'')"
  "spec_clean (ustr ''Hello '' @ [32] @ ustr ''there'') = ustr ''Hello there''"
  "\<not> spec_fuse 500 11 (0, 1000, ustr ''Hello '') (1100, 2000, ustr ''there'')"
  by (simp_all add: ev_spec ev_str Let_def)

lemma ex_empty_in: "compress_input (ustr ''WEBVTT'' @ [10, 10] @
      ustr ''00:00:00.000 --> 00:00:01.000'' @ [10] @ ustr ''Hello there'' @ [10, 10] @
      ustr ''00:00:01.100 --> 00:00:02.000'' @ [10]) =
    Inr [(0, 1000, ustr ''00:00:00.000'', ustr ''00:00:01.000'', ustr ''Hello there''),
         (1100, 2000, ustr ''00:00:01.100'', ustr ''00:00:02.000'', [])]"
  by (simp add: ev_cmp ev_hdr ev_re ev_str ev_num ev_parse ev_enc Let_def)

lemma ex_empty_out: "cmd_compress (ustr ''WEBVTT'' @ [10, 10] @
      ustr ''00:00:00.000 --> 00:00:01.000'' @ [10] @ ustr ''Hello there'' @ [10, 10] @
      ustr ''00:00:01.100 --> 00:00:02.000'' @ [10]) 500 11 =
    Inr ([(ustr ''00:00:00.000'', ustr ''00:00:01.000'', ustr ''Hello there''),
          (ustr ''00:00:01.100'', ustr ''00:00:02.000'', [])],
         ustr ''WEBVTT'' @ [10, 10] @ ustr ''00:00:00.000 --> 00:00:01.000'' @ [10] @
         ustr ''Hello there'' @ [10, 10] @ ustr ''00:00:01.100 --> 00:00:02.000'' @ [10])"
  by (simp add: ev_cmp ev_hdr ev_re ev_str ev_num ev_parse ev_enc Let_def)

lemma ex_empty_stated:
  "spec_fuse_stated 500 11 (0, 1000, ustr ''Hello there'') (1100, 2000, [])"
  "spec_clean (ustr ''Hello there'' @ [32] @ []) = ustr ''Hello there''"
  by (simp_all add: ev_spec ev_str Let_def)

text \<open>
  Claim C7, as amended: the compressor folds the cues, sorted by start and end, from left to
  right with the fusion rule \<open>spec_fuse\<close>: the next cue is fused exactly when the gap is
  within the threshold, the accumulator's text, cleaned, is neither empty nor ends in one
  of the seven terminal marks, and the length of the accumulator's text plus one plus the
  length of the next text is not above \<open>max_chars\<close>; on fusion the end is the larger end and
  the text is the cleaned join. Every run that returns has merged exactly the cues that
  fold gives, rendered with their canonical timestamps.
\<close>

theorem compress_fusion_rule:
  assumes "cmd_compress content gap_ms max_chars = Inr (merged, out)"
  shows "\<exists>cues. compress_input content = Inr cues \<and> cues \<noteq> [] \<and>
           merged = map cue_render
                      (spec_compress gap_ms max_chars
                         (map cue_core (sort_key (\<lambda>(s, e, x). (s, e)) cues)))"
  using assms by (rule cmd_compress_merged)

theorem compress_fusion_rule_witness:
  "cmd_compress (ustr ''WEBVTT'' @ [10, 10] @
      ustr ''00:00:00.000 --> 00:00:01.000'' @ [10] @ ustr ''<i>Hello </i>'' @ [10, 10] @
      ustr ''00:00:01.100 --> 00:00:02.000'' @ [10] @ ustr ''world'' @ [12290, 10, 10] @
      ustr ''00:00:02.000 --> 00:00:03.000'' @ [10, 10] @
      ustr ''00:00:03.000 --> 00:00:04.000'' @ [10] @ ustr ''Next'' @ [10]) 500 130 =
     Inr ([(ustr ''00:00:00.000'', ustr ''00:00:02.000'', ustr ''Hello world'' @ [12290]),
          (ustr ''00:00:02.000'', ustr ''00:00:03.000'', []),
          (ustr ''00:00:03.000'', ustr ''00:00:04.000'', ustr ''Next'')],
         (ustr ''WEBVTT'' @ [10, 10] @ ustr ''00:00:00.000 --> 00:00:02.000'' @ [10] @
         ustr ''Hello world'' @ [12290, 10, 10] @
         ustr ''00:00:02.000 --> 00:00:03.000'' @ [10, 10, 10] @
         ustr ''00:00:03.000 --> 00:00:04.000'' @ [10] @ ustr ''Next'' @ [10])) \<and>
   spec_compress 500 130 [(0, 1000, ustr ''Hello ''), (1100, 2000, ustr ''world'' @ [12290]),
      (2000, 3000, []), (3000, 4000, ustr ''Next'')] =
     [(0, 2000, ustr ''Hello world'' @ [12290]), (2000, 3000, []), (3000, 4000, ustr ''Next'')] \<and>
   spec_fuse 500 130 (0, 1000, ustr ''Hello '') (1100, 2000, ustr ''world'' @ [12290]) \<and>
   spec_clean (ustr ''Hello '' @ [32] @ ustr ''world'' @ [12290]) = ustr ''Hello world'' @ [12290] \<and>
   \<not> spec_fuse 500 130 (0, 2000, ustr ''Hello world'' @ [12290]) (2000, 3000, []) \<and>
   \<not> spec_fuse 500 130 (2000, 3000, []) (3000, 4000, ustr ''Next'') \<and>
   (\<exists>cues. compress_input (ustr ''WEBVTT'' @ [10, 10] @
      ustr ''00:00:00.000 --> 00:00:01.000'' @ [10] @ ustr ''<i>Hello </i>'' @ [10, 10] @
      ustr ''00:00:01.100 --> 00:00:02.000'' @ [10] @ ustr ''world'' @ [12290, 10, 10] @
      ustr ''00:00:02.000 --> 00:00:03.000'' @ [10, 10] @
      ustr ''00:00:03.000 --> 00:00:04.000'' @ [10] @ ustr ''Next'' @ [10]) = Inr cues \<and> cues \<noteq> [] \<and>
      [(ustr ''00:00:00.000'', ustr ''00:00:02.000'', ustr ''Hello world'' @ [12290]),
          (ustr ''00:00:02.000'', ustr ''00:00:03.000'', []),
          (ustr ''00:00:03.000'', ustr ''00:00:04.000'', ustr ''Next'')] = map cue_render
                (spec_compress 500 130 (map cue_core (sort_key (\<lambda>(s, e, x). (s, e)) cues))))"
  using ex_marks_out ex_marks_spec ex_marks_rule(1) ex_marks_rule(2) ex_marks_rule(4)
    ex_marks_rule(6) compress_fusion_rule [OF ex_marks_out]
  by (intro conjI)

text \<open>
  Claim C7 as stated fails where cleaning shortens the joined text: the program compares the
  length of the joined text before it is cleaned again. With \<open>max_chars = 11\<close>, the text
  \<open>Hello \<close> (left by the removal of a tag) and the text \<open>there\<close> are not fused, and the text
  \<open>Hello there\<close> and an empty text are not fused, although in both cases the gap is within
  the threshold, the accumulator is not terminal and the fused text \<open>Hello there\<close> has 11
  characters.
\<close>

theorem compress_length_before_cleaning:
  "cmd_compress (ustr ''WEBVTT'' @ [10, 10] @
      ustr ''00:00:00.000 --> 00:00:01.000'' @ [10] @ ustr ''<i>Hello </i>'' @ [10, 10] @
      ustr ''00:00:01.100 --> 00:00:02.000'' @ [10] @ ustr ''there'' @ [10]) 500 11 =
    Inr ([(ustr ''00:00:00.000'', ustr ''00:00:01.000'', ustr ''Hello ''),
          (ustr ''00:00:01.100'', ustr ''00:00:02.000'', ustr ''there'')],
         ustr ''WEBVTT'' @ [10, 10] @ ustr ''00:00:00.000 --> 00:00:01.000'' @ [10] @
         ustr ''Hello '' @ [10, 10] @ ustr ''00:00:01.100 --> 00:00:02.000'' @ [10] @
         ustr ''there'' @ [10]) \<and>
   compress_input (ustr ''WEBVTT'' @ [10, 10] @
      ustr ''00:00:00.000 --> 00:00:01.000'' @ [10] @ ustr ''<i>Hello </i>'' @ [10, 10] @
      ustr ''00:00:01.100 --> 00:00:02.000'' @ [10] @ ustr ''there'' @ [10]) =
    Inr [(0, 1000, ustr ''00:00:00.000'', ustr ''00:00:01.000'', ustr ''Hello ''),
         (1100, 2000, ustr ''00:00:01.100'', ustr ''00:00:02.000'', ustr ''there'')] \<and>
   spec_fuse_stated 500 11 (0, 1000, ustr ''Hello '') (1100, 2000, ustr ''there'') \<and>
   spec_clean (ustr ''Hello '' @ [32] @ ustr ''there'') = ustr ''Hello there'' \<and>
   cmd_compress (ustr ''WEBVTT'' @ [10, 10] @
      ustr ''00:00:00.000 --> 00:00:01.000'' @ [10] @ ustr ''Hello there'' @ [10, 10] @
      ustr ''00:00:01.100 --> 00:00:02.000'' @ [10]) 500 11 =
    Inr ([(ustr ''00:00:00.000'', ustr ''00:00:01.000'', ustr ''Hello there''),
          (ustr ''00:00:01.100'', ustr ''00:00:02.000'', [])],
         ustr ''WEBVTT'' @ [10, 10] @ ustr ''00:00:00.000 --> 00:00:01.000'' @ [10] @
         ustr ''Hello there'' @ [10, 10] @ ustr ''00:00:01.100 --> 00:00:02.000'' @ [10]) \<and>
   compress_input (ustr ''WEBVTT'' @ [10, 10] @
      ustr ''00:00:00.000 --> 00:00:01.000'' @ [10] @ ustr ''Hello there'' @ [10, 10] @
      ustr ''00:00:01.100 --> 00:00:02.000'' @ [10]) =
    Inr [(0, 1000, ustr ''00:00:00.000'', ustr ''00:00:01.000'', ustr ''Hello there''),
         (1100, 2000, ustr ''00:00:01.100'', ustr ''00:00:02.000'', [])] \<and>
   spec_fuse_stated 500 11 (0, 1000, ustr ''Hello there'') (1100, 2000, []) \<and>
   spec_clean (ustr ''Hello there'' @ [32] @ []) = ustr ''Hello there''"
  using ex_long_out ex_long_in ex_long_stated(1) ex_long_stated(2)
    ex_empty_out ex_empty_in ex_empty_stated(1) ex_empty_stated(2)
  by (intro conjI)

text \<open>
  Claim C2, as amended: after a pass of the fixer every rewritten timestamp line decodes to
  the two times it had before, each clamped at 0, the smaller first; and every cue of the
  compressor's output has its end not before its start provided every cue the compressor
  parsed from its input has.
\<close>

theorem fixer_and_compressor_order:
  "(fix_vtt_timestamps ls = Inr (fixed_lines, fix_log) \<longrightarrow>
      length fixed_lines = length ls \<and>
      (\<forall>k<length ls. \<forall>s e. line_times (ls ! k) = Some (s, e) \<longrightarrow>
          line_times (fixed_lines ! k) = Some (max 0 (min s e), max 0 (max s e)))) \<and>
   (cmd_compress content gap_ms max_chars = Inr (merged, out) \<longrightarrow>
      (\<forall>cues. compress_input content = Inr cues \<longrightarrow> (\<forall>c\<in>set cues. fst c \<le> fst (snd c))) \<longrightarrow>
      list_all cue_ordered merged)"
proof (rule conjI; intro impI)
  assume "fix_vtt_timestamps ls = Inr (fixed_lines, fix_log)"
  then have "fix_loop 1 ls = Inr (fixed_lines, fix_log)"
    by (simp add: fix_vtt_timestamps_def)
  from fix_loop_times [OF this]
  show "length fixed_lines = length ls \<and>
      (\<forall>k<length ls. \<forall>s e. line_times (ls ! k) = Some (s, e) \<longrightarrow>
          line_times (fixed_lines ! k) = Some (max 0 (min s e), max 0 (max s e)))"
    by (simp add: list_all2_conv_all_nth)
next
  assume run: "cmd_compress content gap_ms max_chars = Inr (merged, out)"
    and ord: "\<forall>cues. compress_input content = Inr cues \<longrightarrow> (\<forall>c\<in>set cues. fst c \<le> fst (snd c))"
  from cmd_compress_merged [OF run] obtain cues where
    p: "compress_input content = Inr cues" and
    mg: "merged = map cue_render (spec_compress gap_ms max_chars
                    (map cue_core (sort_key (\<lambda>(s, e, x). (s, e)) cues)))"
    by blast
  from ord p have "\<forall>c\<in>set cues. fst c \<le> fst (snd c)" by blast
  then have "\<forall>x\<in>set (map cue_core (sort_key (\<lambda>(s, e, x). (s, e)) cues)). fst x \<le> fst (snd x)"
    by (auto intro: cue_core_ordered)
  from spec_compress_ordered [OF this]
  show "list_all cue_ordered merged"
    unfolding mg by (simp add: list_all_iff cue_render_ordered)
qed

theorem fixer_and_compressor_order_witness:
  "fix_vtt_timestamps [ustr ''05:00.000 --> 02:00.000 align:start'' @ [10], ustr ''Hello'' @ [10],
      ustr ''46.550 --> 47'' @ [10], ustr ''foo --> bar'' @ [10]] = Inr ([ustr ''00:02:00.000 --> 00:05:00.000 align:start'' @ [10], ustr ''Hello'' @ [10],
      ustr ''00:00:46.550 --> 00:00:47.000'' @ [10], ustr ''foo --> bar'' @ [10]], [(1, SWAP_START_END, Fields (ustr ''05:00.000'') (ustr ''02:00.000'')),
      (3, NORMALIZE, Fields (ustr ''46.550'') (ustr ''47'')),
      (4, SKIP_UNPARSEABLE, Raised ValueError)]) \<and>
   line_times (ustr ''05:00.000 --> 02:00.000 align:start'' @ [10]) = Some (300000, 120000) \<and>
   line_times (ustr ''00:02:00.000 --> 00:05:00.000 align:start'' @ [10]) = Some (120000, 300000) \<and>
   cmd_compress (ustr ''WEBVTT'' @ [10, 10] @
      ustr ''00:00:00.000 --> 00:00:01.000'' @ [10] @ ustr ''Hello'' @ [10, 10] @
      ustr ''00:00:01.100 --> 00:00:02.000'' @ [10] @ ustr ''world.'' @ [10, 10] @
      ustr ''00:00:02.000 --> 00:00:03.000'' @ [10] @ ustr ''Next'' @ [10]) 500 130 = Inr ([(ustr ''00:00:00.000'', ustr ''00:00:02.000'', ustr ''Hello world.''),
          (ustr ''00:00:02.000'', ustr ''00:00:03.000'', ustr ''Next'')], (ustr ''WEBVTT'' @ [10, 10] @ ustr ''00:00:00.000 --> 00:00:02.000'' @ [10] @
         ustr ''Hello world.'' @ [10, 10] @ ustr ''00:00:02.000 --> 00:00:03.000'' @ [10] @
         ustr ''Next'' @ [10])) \<and>
   list_all cue_ordered [(ustr ''00:00:00.000'', ustr ''00:00:02.000'', ustr ''Hello world.''),
          (ustr ''00:00:02.000'', ustr ''00:00:03.000'', ustr ''Next'')]"
proof -
  have f: "fix_vtt_timestamps [ustr ''05:00.000 --> 02:00.000 align:start'' @ [10], ustr ''Hello'' @ [10],
      ustr ''46.550 --> 47'' @ [10], ustr ''foo --> bar'' @ [10]] = Inr ([ustr ''00:02:00.000 --> 00:05:00.000 align:start'' @ [10], ustr ''Hello'' @ [10],
      ustr ''00:00:46.550 --> 00:00:47.000'' @ [10], ustr ''foo --> bar'' @ [10]], [(1, SWAP_START_END, Fields (ustr ''05:00.000'') (ustr ''02:00.000'')),
      (3, NORMALIZE, Fields (ustr ''46.550'') (ustr ''47'')),
      (4, SKIP_UNPARSEABLE, Raised ValueError)])"
    by (simp add: fix_vtt_timestamps_def fix_line_def ev_hdr ev_re ev_str ev_num ev_parse ev_float
          ev_enc Let_def)
  have lt: "line_times (ustr ''05:00.000 --> 02:00.000 align:start'' @ [10]) = Some (300000, 120000)"
    by (simp add: line_times_def ev_re ev_str ev_num ev_parse Let_def)
  note T = fixer_and_compressor_order [of "[ustr ''05:00.000 --> 02:00.000 align:start'' @ [10], ustr ''Hello'' @ [10],
      ustr ''46.550 --> 47'' @ [10], ustr ''foo --> bar'' @ [10]]" "[ustr ''00:02:00.000 --> 00:05:00.000 align:start'' @ [10], ustr ''Hello'' @ [10],
      ustr ''00:00:46.550 --> 00:00:47.000'' @ [10], ustr ''foo --> bar'' @ [10]]" "[(1, SWAP_START_END, Fields (ustr ''05:00.000'') (ustr ''02:00.000'')),
      (3, NORMALIZE, Fields (ustr ''46.550'') (ustr ''47'')),
      (4, SKIP_UNPARSEABLE, Raised ValueError)]" "(ustr ''WEBVTT'' @ [10, 10] @
      ustr ''00:00:00.000 --> 00:00:01.000'' @ [10] @ ustr ''Hello'' @ [10, 10] @
      ustr ''00:00:01.100 --> 00:00:02.000'' @ [10] @ ustr ''world.'' @ [10, 10] @
      ustr ''00:00:02.000 --> 00:00:03.000'' @ [10] @ ustr ''Next'' @ [10])" 500 130 "[(ustr ''00:00:00.000'', ustr ''00:00:02.000'', ustr ''Hello world.''),
          (ustr ''00:00:02.000'', ustr ''00:00:03.000'', ustr ''Next'')]" "(ustr ''WEBVTT'' @ [10, 10] @ ustr ''00:00:00.000 --> 00:00:02.000'' @ [10] @
         ustr ''Hello world.'' @ [10, 10] @ ustr ''00:00:02.000 --> 00:00:03.000'' @ [10] @
         ustr ''Next'' @ [10])"]
  from T f have "\<forall>k<4. \<forall>s e. line_times ([ustr ''05:00.000 --> 02:00.000 align:start'' @ [10], ustr ''Hello'' @ [10],
      ustr ''46.550 --> 47'' @ [10], ustr ''foo --> bar'' @ [10]] ! k) = Some (s, e) \<longrightarrow>
          line_times ([ustr ''00:02:00.000 --> 00:05:00.000 align:start'' @ [10], ustr ''Hello'' @ [10],
      ustr ''00:00:46.550 --> 00:00:47.000'' @ [10], ustr ''foo --> bar'' @ [10]] ! k) = Some (max 0 (min s e), max 0 (max s e))"
    by simp
  then have "\<forall>s e. line_times (ustr ''05:00.000 --> 02:00.000 align:start'' @ [10]) = Some (s, e) \<longrightarrow>
          line_times (ustr ''00:02:00.000 --> 00:05:00.000 align:start'' @ [10])
            = Some (max 0 (min s e), max 0 (max s e))"
    by (drule_tac x = 0 in spec) simp
  with lt have lt2: "line_times (ustr ''00:02:00.000 --> 00:05:00.000 align:start'' @ [10])
      = Some (120000, 300000)"
    by simp
  have "\<forall>cues. compress_input (ustr ''WEBVTT'' @ [10, 10] @
      ustr ''00:00:00.000 --> 00:00:01.000'' @ [10] @ ustr ''Hello'' @ [10, 10] @
      ustr ''00:00:01.100 --> 00:00:02.000'' @ [10] @ ustr ''world.'' @ [10, 10] @
      ustr ''00:00:02.000 --> 00:00:03.000'' @ [10] @ ustr ''Next'' @ [10]) = Inr cues \<longrightarrow> (\<forall>c\<in>set cues. fst c \<le> fst (snd c))"
    unfolding ex_in by simp
  with T ex_out have "list_all cue_ordered [(ustr ''00:00:00.000'', ustr ''00:00:02.000'', ustr ''Hello world.''),
          (ustr ''00:00:02.000'', ustr ''00:00:03.000'', ustr ''Next'')]"
    by blast
  with f lt lt2 ex_out show ?thesis by (intro conjI)
qed

text \<open>
  Claim C2 as stated fails for the compressor: on a document whose single cue ends before it
  starts, the cue of the output ends before it starts.
\<close>

theorem compressor_keeps_reversed_cue:
  "cmd_compress (ustr ''WEBVTT'' @ [10, 10] @
      ustr ''00:00:05.000 --> 00:00:02.000'' @ [10] @ ustr ''Hi'' @ [10]) 500 130 =
    Inr ([(ustr ''00:00:05.000'', ustr ''00:00:02.000'', ustr ''Hi'')],
         ustr ''WEBVTT'' @ [10, 10] @ ustr ''00:00:05.000 --> 00:00:02.000'' @ [10] @
         ustr ''Hi'' @ [10]) \<and>
   \<not> list_all cue_ordered [(ustr ''00:00:05.000'', ustr ''00:00:02.000'', ustr ''Hi'')]"
  using ex_rev ex_ord by simp

section \<open>Properties of the chunker\<close>

lemma group_cues_buckets:
  assumes "d \<noteq> 0"
  shows "\<exists>bs'. group_cues b d bs cs = Inr bs' \<and>
           (\<forall>i. i < length bs' \<longleftrightarrow>
                  i < length bs \<or> (\<exists>c\<in>set cs. i \<le> nat (spec_bucket_index b d (start_ms c)))) \<and>
           (\<forall>i. bucket_at bs' i = bucket_at bs i @
                  filter (\<lambda>c. nat (spec_bucket_index b d (start_ms c)) = i) cs)"
proof (induction cs arbitrary: bs)
  case Nil
  then show ?case by simp
next
  case (Cons c cs)
  define idx where "idx = nat (spec_bucket_index b d (start_ms c))"
  define grown where "grown = bs @ replicate (Suc idx - length bs) []"
  define bs1 where "bs1 = grown[idx := grown ! idx @ [c]]"
  have ci: "chunk_index b d (start_ms c) = Inr idx"
    using assms by (simp add: chunk_index_def idx_def spec_bucket_index_def)
  have step: "group_cues b d bs (c # cs) = group_cues b d bs1 cs"
    by (simp add: ci grown_def bs1_def Let_def)
  have leng: "length grown = max (length bs) (Suc idx)"
    by (simp add: grown_def)
  have len1: "i < length bs1 \<longleftrightarrow> i < length bs \<or> i \<le> idx" for i
    using leng by (auto simp: bs1_def)
  have gat: "bucket_at grown i = bucket_at bs i" for i
    by (simp add: bucket_at_def grown_def nth_append)
  have at1: "bucket_at bs1 i = bucket_at bs i @ (if idx = i then [c] else [])" for i
  proof (cases "idx = i")
    case True
    have "i < length grown" using leng True by simp
    then show ?thesis using True gat [of i] by (simp add: bucket_at_def bs1_def)
  next
    case False
    have "bucket_at bs1 i = bucket_at grown i"
      using False by (simp add: bucket_at_def bs1_def)
    then show ?thesis using False gat [of i] by simp
  qed
  from Cons.IH [of bs1] obtain bs' where
    r: "group_cues b d bs1 cs = Inr bs'" and
    l: "\<forall>i. i < length bs' \<longleftrightarrow>
              i < length bs1 \<or> (\<exists>c\<in>set cs. i \<le> nat (spec_bucket_index b d (start_ms c)))" and
    a: "\<forall>i. bucket_at bs' i = bucket_at bs1 i @
                  filter (\<lambda>c. nat (spec_bucket_index b d (start_ms c)) = i) cs"
    by blast
  have "\<forall>i. i < length bs' \<longleftrightarrow>
            i < length bs \<or> (\<exists>x\<in>set (c # cs). i \<le> nat (spec_bucket_index b d (start_ms x)))"
    using l len1 by (auto simp: idx_def)
  moreover have "\<forall>i. bucket_at bs' i = bucket_at bs i @
                  filter (\<lambda>c. nat (spec_bucket_index b d (start_ms c)) = i) (c # cs)"
    using a at1 by (simp add: idx_def)
  ultimately show ?case using r step by simp
qed


lemma write_buckets_files:
  assumes "0 < k"
  shows "write_buckets stem header rebase base chunk_ms k bs =
     map (\<lambda>i. split_file stem header rebase base chunk_ms (k + i - 1) (bs ! i))
       (filter (\<lambda>i. bs ! i \<noteq> []) [0..<length bs])"
  using assms
proof (induction bs arbitrary: k)
  case Nil
  then show ?case by simp
next
  case (Cons bucket rest)
  have up: "[0..<length (bucket # rest)] = 0 # map Suc [0..<length rest]"
    by (simp add: upt_conv_Cons map_Suc_upt del: upt_Suc)
  have sh: "map (\<lambda>i. split_file stem header rebase base chunk_ms (k + i - 1) ((bucket # rest) ! i))
             (filter (\<lambda>i. (bucket # rest) ! i \<noteq> []) (map Suc [0..<length rest]))
          = map (\<lambda>i. split_file stem header rebase base chunk_ms (Suc k + i - 1) (rest ! i))
             (filter (\<lambda>i. rest ! i \<noteq> []) [0..<length rest])"
    by (simp add: filter_map comp_def)
  have k1: "int k - 1 = int (k - 1)" "int (k - 1) + 1 = int k" using Cons.prems by simp_all
  have hd: "(stem @ ustr ''_part'' @ py_str_int (int k) @ ustr ''.vtt'',
             (if header \<noteq> [] then header else [ustr ''WEBVTT'' @ [10], [10]]) @
             concat (map (cue_out_lines rebase (base + (int k - 1) * chunk_ms)) bucket))
          = split_file stem header rebase base chunk_ms (k - 1) bucket"
    by (simp only: split_file_def k1)
  have "write_buckets stem header rebase base chunk_ms k (bucket # rest) =
      (if bucket = [] then [] else [split_file stem header rebase base chunk_ms (k - 1) bucket]) @
      write_buckets stem header rebase base chunk_ms (Suc k) rest"
    by (simp add: Let_def hd)
  also have "write_buckets stem header rebase base chunk_ms (Suc k) rest
      = map (\<lambda>i. split_file stem header rebase base chunk_ms (Suc k + i - 1) (rest ! i))
             (filter (\<lambda>i. rest ! i \<noteq> []) [0..<length rest])"
    by (rule Cons.IH) simp
  finally show ?case
    unfolding up sh [symmetric] by simp
qed

lemma filter_upt_sorted_list:
  assumes "finite S" "\<forall>x\<in>S. x < n"
  shows "filter (\<lambda>i. i \<in> S) [0..<n] = sorted_list_of_set S"
proof -
  let ?xs = "filter (\<lambda>i. i \<in> S) [0..<n]"
  have "set ?xs = S" using assms(2) by auto
  moreover have "sorted ?xs" "distinct ?xs" by (simp_all add: sorted_wrt_filter)
  ultimately show ?thesis
    using sorted_list_of_set.idem_if_sorted_distinct [of ?xs] by simp
qed

lemma spec_bucket_index_nat: "nat (spec_bucket_index b d s) = i \<longleftrightarrow> spec_bucket_index b d s = int i"
  by (auto simp: spec_bucket_index_def)

text \<open>The files \<open>cmd_split\<close> writes, for a chunk duration that is not zero.\<close>

lemma cmd_split_files:
  fixes start_at_zero :: bool
  assumes min: "minutes \<noteq> 0"
    and hb: "split_header_and_body ls = (header, body)"
    and cu: "iter_cues body = Inr cues" and ne: "cues \<noteq> []"
  defines "d \<equiv> minutes * 60000"
  defines "b \<equiv> (if start_at_zero then 0 else (Min (set (map start_ms cues)) div d) * d)"
  shows "cmd_split stem ls minutes rebase start_at_zero =
           Inr (map (\<lambda>i. split_file stem header rebase b d i
                            (filter (\<lambda>c. spec_bucket_index b d (start_ms c) = int i) cues))
                  (sorted_list_of_set ((\<lambda>c. nat (spec_bucket_index b d (start_ms c))) ` set cues)))"
proof -
  let ?idx = "\<lambda>c. nat (spec_bucket_index b d (start_ms c))"
  have d0: "d \<noteq> 0" using min by (simp add: d_def)
  from group_cues_buckets [OF d0, of b "[]" cues] obtain bs where
    g: "group_cues b d [] cues = Inr bs" and
    l: "\<forall>i. i < length bs \<longleftrightarrow> (\<exists>c\<in>set cues. i \<le> ?idx c)" and
    a: "\<forall>i. bucket_at bs i = filter (\<lambda>c. ?idx c = i) cues"
    by (auto simp: bucket_at_def)
  have run: "cmd_split stem ls minutes rebase start_at_zero =
               Inr (write_buckets stem header rebase b d 1 bs)"
  proof (cases start_at_zero)
    case True
    then show ?thesis
      using hb cu ne d0 g by (simp add: cmd_split_def Let_def b_def d_def)
  next
    case False
    then show ?thesis
      using hb cu ne d0 g by (simp add: cmd_split_def Let_def b_def d_def)
  qed
  have at: "bs ! i = filter (\<lambda>c. ?idx c = i) cues" if "i < length bs" for i
    using a [rule_format, of i] that by (simp add: bucket_at_def)
  have occ: "\<forall>x\<in>?idx ` set cues. x < length bs"
    using l by auto
  have "write_buckets stem header rebase b d 1 bs =
          map (\<lambda>i. split_file stem header rebase b d (1 + i - 1) (bs ! i))
            (filter (\<lambda>i. bs ! i \<noteq> []) [0..<length bs])"
    by (rule write_buckets_files) simp
  also have "\<dots> = map (\<lambda>i. split_file stem header rebase b d i (filter (\<lambda>c. ?idx c = i) cues))
            (filter (\<lambda>i. i \<in> ?idx ` set cues) [0..<length bs])"
  proof -
    have "filter (\<lambda>i. bs ! i \<noteq> []) [0..<length bs]
            = filter (\<lambda>i. i \<in> ?idx ` set cues) [0..<length bs]"
      by (rule filter_cong) (auto simp: at filter_empty_conv)
    moreover have "map (\<lambda>i. split_file stem header rebase b d (1 + i - 1) (bs ! i))
            (filter (\<lambda>i. i \<in> ?idx ` set cues) [0..<length bs])
          = map (\<lambda>i. split_file stem header rebase b d i (filter (\<lambda>c. ?idx c = i) cues))
            (filter (\<lambda>i. i \<in> ?idx ` set cues) [0..<length bs])"
      by (rule map_cong) (auto simp: at)
    ultimately show ?thesis by simp
  qed
  also have "filter (\<lambda>i. i \<in> ?idx ` set cues) [0..<length bs]
               = sorted_list_of_set (?idx ` set cues)"
    using occ by (intro filter_upt_sorted_list) simp_all
  finally show ?thesis
    unfolding run by (simp add: spec_bucket_index_nat)
qed

lemma largest_multiple:
  fixes m d :: int
  assumes "0 < d"
  shows "d dvd (m div d) * d \<and> (m div d) * d \<le> m \<and> m < (m div d) * d + d"
proof -
  have "m = (m div d) * d + m mod d" by simp
  moreover have "0 \<le> m mod d" "m mod d < d" using assms by simp_all
  ultimately show ?thesis by (smt (verit) dvd_triv_right)
qed

text \<open>Runs of the chunker on two small documents.\<close>

lemmas ev_split = cmd_split_def split_header_and_body_def chunk_index_def cue_out_lines_def
  py_str_int_def

lemma ex_split4:
  "cmd_split (ustr ''talk'')
     [ustr ''WEBVTT'' @ [10], [10],
      ustr ''00:00:00.000 --> 00:00:01.000'' @ [10], ustr ''a'' @ [10], [10],
      ustr ''00:09:59.999 --> 00:10:00.000'' @ [10], ustr ''b'' @ [10], [10],
      ustr ''00:10:00.000 --> 00:10:01.000'' @ [10], ustr ''c'' @ [10], [10],
      ustr ''00:19:59.999 --> 00:20:00.000'' @ [10], ustr ''d'' @ [10]] 10 False True =
   Inr [(ustr ''talk_part1.vtt'',
         [ustr ''WEBVTT'' @ [10], [10],
          ustr ''00:00:00.000 --> 00:00:01.000'' @ [10], ustr ''a'' @ [10], [10],
          ustr ''00:09:59.999 --> 00:10:00.000'' @ [10], ustr ''b'' @ [10], [10]]),
        (ustr ''talk_part2.vtt'',
         [ustr ''WEBVTT'' @ [10], [10],
          ustr ''00:10:00.000 --> 00:10:01.000'' @ [10], ustr ''c'' @ [10], [10],
          ustr ''00:19:59.999 --> 00:20:00.000'' @ [10], ustr ''d'' @ [10], [10]])]"
  by (simp add: ev_split ev_hdr ev_re ev_str ev_num ev_parse ev_enc Let_def)

lemma ex_split_gap:
  "cmd_split (ustr ''talk'')
     [ustr ''WEBVTT'' @ [10], [10],
      ustr ''00:00:00.000 --> 00:00:01.000'' @ [10], ustr ''a'' @ [10], [10],
      ustr ''00:20:00.000 --> 00:20:01.000'' @ [10], ustr ''b'' @ [10]] 10 False True =
   Inr [(ustr ''talk_part1.vtt'',
         [ustr ''WEBVTT'' @ [10], [10],
          ustr ''00:00:00.000 --> 00:00:01.000'' @ [10], ustr ''a'' @ [10], [10]]),
        (ustr ''talk_part3.vtt'',
         [ustr ''WEBVTT'' @ [10], [10],
          ustr ''00:20:00.000 --> 00:20:01.000'' @ [10], ustr ''b'' @ [10], [10]])]"
  by (simp add: ev_split ev_hdr ev_re ev_str ev_num ev_parse ev_enc Let_def)

lemma ex_split4_parse:
  "split_header_and_body
     [ustr ''WEBVTT'' @ [10], [10],
      ustr ''00:00:00.000 --> 00:00:01.000'' @ [10], ustr ''a'' @ [10], [10],
      ustr ''00:09:59.999 --> 00:10:00.000'' @ [10], ustr ''b'' @ [10], [10],
      ustr ''00:10:00.000 --> 00:10:01.000'' @ [10], ustr ''c'' @ [10], [10],
      ustr ''00:19:59.999 --> 00:20:00.000'' @ [10], ustr ''d'' @ [10]] =
     ([ustr ''WEBVTT'' @ [10], [10]],
      [ustr ''00:00:00.000 --> 00:00:01.000'' @ [10], ustr ''a'' @ [10], [10],
       ustr ''00:09:59.999 --> 00:10:00.000'' @ [10], ustr ''b'' @ [10], [10],
       ustr ''00:10:00.000 --> 00:10:01.000'' @ [10], ustr ''c'' @ [10], [10],
       ustr ''00:19:59.999 --> 00:20:00.000'' @ [10], ustr ''d'' @ [10]])"
  "iter_cues
      [ustr ''00:00:00.000 --> 00:00:01.000'' @ [10], ustr ''a'' @ [10], [10],
       ustr ''00:09:59.999 --> 00:10:00.000'' @ [10], ustr ''b'' @ [10], [10],
       ustr ''00:10:00.000 --> 00:10:01.000'' @ [10], ustr ''c'' @ [10], [10],
       ustr ''00:19:59.999 --> 00:20:00.000'' @ [10], ustr ''d'' @ [10]] =
     Inr [\<lparr>start_ms = 0, end_ms = 1000, text_lines = [ustr ''a''],
            ts_line = ustr ''00:00:00.000 --> 00:00:01.000''\<rparr>,
          \<lparr>start_ms = 599999, end_ms = 600000, text_lines = [ustr ''b''],
            ts_line = ustr ''00:09:59.999 --> 00:10:00.000''\<rparr>,
          \<lparr>start_ms = 600000, end_ms = 601000, text_lines = [ustr ''c''],
            ts_line = ustr ''00:10:00.000 --> 00:10:01.000''\<rparr>,
          \<lparr>start_ms = 1199999, end_ms = 1200000, text_lines = [ustr ''d''],
            ts_line = ustr ''00:19:59.999 --> 00:20:00.000''\<rparr>]"
  by (simp_all add: split_header_and_body_def ev_hdr ev_re ev_str ev_num ev_parse Let_def)

lemma ex_split_gap_parse:
  "split_header_and_body
     [ustr ''WEBVTT'' @ [10], [10],
      ustr ''00:00:00.000 --> 00:00:01.000'' @ [10], ustr ''a'' @ [10], [10],
      ustr ''00:20:00.000 --> 00:20:01.000'' @ [10], ustr ''b'' @ [10]] =
     ([ustr ''WEBVTT'' @ [10], [10]],
      [ustr ''00:00:00.000 --> 00:00:01.000'' @ [10], ustr ''a'' @ [10], [10],
       ustr ''00:20:00.000 --> 00:20:01.000'' @ [10], ustr ''b'' @ [10]])"
  "iter_cues
      [ustr ''00:00:00.000 --> 00:00:01.000'' @ [10], ustr ''a'' @ [10], [10],
       ustr ''00:20:00.000 --> 00:20:01.000'' @ [10], ustr ''b'' @ [10]] =
     Inr [\<lparr>start_ms = 0, end_ms = 1000, text_lines = [ustr ''a''],
            ts_line = ustr ''00:00:00.000 --> 00:00:01.000''\<rparr>,
          \<lparr>start_ms = 1200000, end_ms = 1201000, text_lines = [ustr ''b''],
            ts_line = ustr ''00:20:00.000 --> 00:20:01.000''\<rparr>]"
  by (simp_all add: split_header_and_body_def ev_hdr ev_re ev_str ev_num ev_parse Let_def)

text \<open>
  Claim C8: for a positive chunk duration, the alignment base is 0 or the largest multiple
  of the duration not above the least cue start; the files written are, in the order of the
  bucket indices, one for every index that some cue has, holding the cues of that index in
  document order; an index no cue has gives no file.
\<close>

theorem chunker_bucket_placement:
  fixes start_at_zero :: bool
  assumes "0 < minutes"
    and "split_header_and_body ls = (header, body)"
    and "iter_cues body = Inr cues" and "cues \<noteq> []"
  defines "d \<equiv> minutes * 60000"
  defines "b \<equiv> (if start_at_zero then 0 else (Min (set (map start_ms cues)) div d) * d)"
  shows "(\<not> start_at_zero \<longrightarrow>
            d dvd b \<and> b \<le> Min (set (map start_ms cues)) \<and> Min (set (map start_ms cues)) < b + d) \<and>
         cmd_split stem ls minutes rebase start_at_zero =
           Inr (map (\<lambda>i. split_file stem header rebase b d i
                            (filter (\<lambda>c. spec_bucket_index b d (start_ms c) = int i) cues))
                  (sorted_list_of_set ((\<lambda>c. nat (spec_bucket_index b d (start_ms c))) ` set cues)))"
proof
  have "0 < d" using assms(1) by (simp add: d_def)
  then show "\<not> start_at_zero \<longrightarrow>
            d dvd b \<and> b \<le> Min (set (map start_ms cues)) \<and> Min (set (map start_ms cues)) < b + d"
    using largest_multiple [of d "Min (set (map start_ms cues))"] by (simp add: b_def)
  have "minutes \<noteq> 0" using assms(1) by simp
  from cmd_split_files [OF this assms(2,3,4)]
  show "cmd_split stem ls minutes rebase start_at_zero =
           Inr (map (\<lambda>i. split_file stem header rebase b d i
                            (filter (\<lambda>c. spec_bucket_index b d (start_ms c) = int i) cues))
                  (sorted_list_of_set ((\<lambda>c. nat (spec_bucket_index b d (start_ms c))) ` set cues)))"
    by (simp only: b_def d_def)
qed

theorem chunker_bucket_placement_witness:
  "cmd_split (ustr ''talk'')
     [ustr ''WEBVTT'' @ [10], [10],
      ustr ''00:00:00.000 --> 00:00:01.000'' @ [10], ustr ''a'' @ [10], [10],
      ustr ''00:09:59.999 --> 00:10:00.000'' @ [10], ustr ''b'' @ [10], [10],
      ustr ''00:10:00.000 --> 00:10:01.000'' @ [10], ustr ''c'' @ [10], [10],
      ustr ''00:19:59.999 --> 00:20:00.000'' @ [10], ustr ''d'' @ [10]] 10 False True =
   Inr [(ustr ''talk_part1.vtt'',
         [ustr ''WEBVTT'' @ [10], [10],
          ustr ''00:00:00.000 --> 00:00:01.000'' @ [10], ustr ''a'' @ [10], [10],
          ustr ''00:09:59.999 --> 00:10:00.000'' @ [10], ustr ''b'' @ [10], [10]]),
        (ustr ''talk_part2.vtt'',
         [ustr ''WEBVTT'' @ [10], [10],
          ustr ''00:10:00.000 --> 00:10:01.000'' @ [10], ustr ''c'' @ [10], [10],
          ustr ''00:19:59.999 --> 00:20:00.000'' @ [10], ustr ''d'' @ [10], [10]])] \<and>
   map (\<lambda>s. spec_bucket_index 0 600000 s) [0, 599999, 600000, 1199999] = [0, 0, 1, 1] \<and>
   (\<exists>cues. cmd_split (ustr ''talk'')
     [ustr ''WEBVTT'' @ [10], [10],
      ustr ''00:00:00.000 --> 00:00:01.000'' @ [10], ustr ''a'' @ [10], [10],
      ustr ''00:09:59.999 --> 00:10:00.000'' @ [10], ustr ''b'' @ [10], [10],
      ustr ''00:10:00.000 --> 00:10:01.000'' @ [10], ustr ''c'' @ [10], [10],
      ustr ''00:19:59.999 --> 00:20:00.000'' @ [10], ustr ''d'' @ [10]] 10 False True =
     Inr (map (\<lambda>i. split_file (ustr ''talk'') [ustr ''WEBVTT'' @ [10], [10]] False 0 (10 * 60000) i
                      (filter (\<lambda>c. spec_bucket_index 0 (10 * 60000) (start_ms c) = int i) cues))
            (sorted_list_of_set ((\<lambda>c. nat (spec_bucket_index 0 (10 * 60000) (start_ms c))) ` set cues))))"
proof -
  have pos: "(0::int) < 10" by simp
  have ne: "[\<lparr>start_ms = 0, end_ms = 1000, text_lines = [ustr ''a''],
            ts_line = ustr ''00:00:00.000 --> 00:00:01.000''\<rparr>,
          \<lparr>start_ms = 599999, end_ms = 600000, text_lines = [ustr ''b''],
            ts_line = ustr ''00:09:59.999 --> 00:10:00.000''\<rparr>,
          \<lparr>start_ms = 600000, end_ms = 601000, text_lines = [ustr ''c''],
            ts_line = ustr ''00:10:00.000 --> 00:10:01.000''\<rparr>,
          \<lparr>start_ms = 1199999, end_ms = 1200000, text_lines = [ustr ''d''],
            ts_line = ustr ''00:19:59.999 --> 00:20:00.000''\<rparr>] \<noteq> []" by simp
  note T = chunker_bucket_placement [OF pos ex_split4_parse ne,
      where start_at_zero = True and stem = "ustr ''talk''" and rebase = False]
  have k: "map (\<lambda>s. spec_bucket_index 0 600000 s) [0, 599999, 600000, 1199999] = [0, 0, 1, 1]"
    by (simp add: spec_bucket_index_def)
  note c = T [THEN conjunct2, unfolded if_True]
  show ?thesis
    by (intro conjI, rule ex_split4, rule k, rule exI, rule c)
qed

text \<open>
  Claim C10: the file of a bucket is named after the position of the bucket, its index plus
  one, whether or not the buckets before it were written; with an empty window between two
  occupied ones the part numbers skip.
\<close>

theorem chunker_part_numbers:
  fixes start_at_zero :: bool
  assumes "0 < minutes"
    and "split_header_and_body ls = (header, body)"
    and "iter_cues body = Inr cues" and "cues \<noteq> []"
  defines "d \<equiv> minutes * 60000"
  defines "b \<equiv> (if start_at_zero then 0 else (Min (set (map start_ms cues)) div d) * d)"
  shows "\<exists>files. cmd_split stem ls minutes rebase start_at_zero = Inr files \<and>
           map fst files =
             map (\<lambda>i. stem @ ustr ''_part'' @ py_str_int (int i + 1) @ ustr ''.vtt'')
               (sorted_list_of_set ((\<lambda>c. nat (spec_bucket_index b d (start_ms c))) ` set cues))"
proof -
  have "minutes \<noteq> 0" using assms(1) by simp
  from cmd_split_files [OF this assms(2,3,4), of stem rebase start_at_zero]
  show ?thesis
    by (simp add: b_def d_def split_file_def comp_def)
qed

theorem chunker_part_numbers_witness:
  "cmd_split (ustr ''talk'')
     [ustr ''WEBVTT'' @ [10], [10],
      ustr ''00:00:00.000 --> 00:00:01.000'' @ [10], ustr ''a'' @ [10], [10],
      ustr ''00:20:00.000 --> 00:20:01.000'' @ [10], ustr ''b'' @ [10]] 10 False True =
   Inr [(ustr ''talk_part1.vtt'',
         [ustr ''WEBVTT'' @ [10], [10],
          ustr ''00:00:00.000 --> 00:00:01.000'' @ [10], ustr ''a'' @ [10], [10]]),
        (ustr ''talk_part3.vtt'',
         [ustr ''WEBVTT'' @ [10], [10],
          ustr ''00:20:00.000 --> 00:20:01.000'' @ [10], ustr ''b'' @ [10], [10]])] \<and>
   (\<exists>files. cmd_split (ustr ''talk'')
     [ustr ''WEBVTT'' @ [10], [10],
      ustr ''00:00:00.000 --> 00:00:01.000'' @ [10], ustr ''a'' @ [10], [10],
      ustr ''00:20:00.000 --> 00:20:01.000'' @ [10], ustr ''b'' @ [10]] 10 False True = Inr files \<and>
      map fst files =
        map (\<lambda>i. ustr ''talk'' @ ustr ''_part'' @ py_str_int (int i + 1) @ ustr ''.vtt'')
          (sorted_list_of_set ((\<lambda>c. nat (spec_bucket_index 0 (10 * 60000) (start_ms c))) `
             set [\<lparr>start_ms = 0, end_ms = 1000, text_lines = [ustr ''a''],
                    ts_line = ustr ''00:00:00.000 --> 00:00:01.000''\<rparr>,
                  \<lparr>start_ms = 1200000, end_ms = 1201000, text_lines = [ustr ''b''],
                    ts_line = ustr ''00:20:00.000 --> 00:20:01.000''\<rparr>])))"
proof -
  have pos: "(0::int) < 10" by simp
  have ne: "[\<lparr>start_ms = 0, end_ms = 1000, text_lines = [ustr ''a''],
            ts_line = ustr ''00:00:00.000 --> 00:00:01.000''\<rparr>,
          \<lparr>start_ms = 1200000, end_ms = 1201000, text_lines = [ustr ''b''],
            ts_line = ustr ''00:20:00.000 --> 00:20:01.000''\<rparr>] \<noteq> []" by simp
  note T = chunker_part_numbers [OF pos ex_split_gap_parse ne,
      where start_at_zero = True and stem = "ustr ''talk''" and rebase = False]
  show ?thesis
    by (rule conjI [OF ex_split_gap T [unfolded if_True]])
qed

section \<open>Properties of the chronological merger\<close>














lemmas ev_merge = cmd_merge_def files_sorted_def first_cue_start_ms_def part_number_from_name_def
  PARTNUM_RE_def re_part_number_def path_stem_def rfind_def lower_ascii_def not_letter_def
  read_vtt_keep_header_def trim_blank_def split_header_and_body_def



lemma ex_pn:
  "part_number_from_name (ustr ''a.vtt'') = 10 ^ 9"
  "part_number_from_name (ustr ''talk_part02.english.vtt'') = 2"
  "part_number_from_name (ustr ''Part 10.vtt'') = 10"
  by (simp_all add: ev_merge ev_re ev_str ev_num ev_parse Let_def)








end
